theory Spec2Isabelle
  imports Main "HOL-Library.Monad_Syntax"
begin

section \<open>Big-integer polynomials: the data model\<close>

text \<open>
  A \<open>Poly\<close> of the Go source is a slice of pointers to arbitrary-precision integers,
  the coefficient of \<open>x^i\<close> at index \<open>i\<close>. The value-level model is the list of the
  integers pointed to. An optional modulus (\<open>nil\<close> in Go) is an \<open>int option\<close>.
  A run-time panic of the Go code is the result \<open>None\<close>.
\<close>

type_synonym Poly = "int list"

text \<open>\<open>big.Int.Mod\<close>: Euclidean modulus, result in \<open>[0, |m|)\<close>; panics when \<open>m = 0\<close>.\<close>

definition big_Mod :: "int \<Rightarrow> int \<Rightarrow> int option" where
  "big_Mod a m = (if m = 0 then None else Some (a mod \<bar>m\<bar>))"

text \<open>\<open>big.Int.Div\<close>: Euclidean division (the remainder is never negative); panics when
  the divisor is 0.\<close>

definition big_Div :: "int \<Rightarrow> int \<Rightarrow> int option" where
  "big_Div a b = (if b = 0 then None else Some (sgn b * (a div \<bar>b\<bar>)))"

text \<open>\<open>big.Int.Cmp\<close>.\<close>

definition big_Cmp :: "int \<Rightarrow> int \<Rightarrow> int" where
  "big_Cmp x y = (if x < y then - 1 else if x = y then 0 else 1)"

definition GetDegree :: "Poly \<Rightarrow> int" where
  "GetDegree p = int (length p) - 1"

text \<open>The loop of \<open>trim\<close>: search downwards from index \<open>i\<close> for a nonzero
  coefficient, never looking at index 0.\<close>

fun trim_last :: "Poly \<Rightarrow> nat \<Rightarrow> nat" where
  "trim_last p 0 = 0"
| "trim_last p (Suc i) = (if p ! Suc i \<noteq> 0 then Suc i else trim_last p i)"

text \<open>\<open>trim\<close> reslices to \<open>[:last+1]\<close>. On an empty polynomial (taken to have
  capacity 0, as \<open>Poly{}\<close>, \<open>nil\<close> and \<open>make\<close> with length 0 have) the reslice
  is out of range and panics.\<close>

definition trim :: "Poly \<Rightarrow> Poly option" where
  "trim p = (if p = [] then None
             else Some (take (trim_last p (nat (GetDegree p)) + 1) p))"

definition isZero :: "Poly \<Rightarrow> bool" where
  "isZero p = (GetDegree p = 0 \<and> big_Cmp (p ! 0) 0 = 0)"

text \<open>\<open>NewPolyInts\<close> is variadic: \<open>None\<close> is the call without arguments (\<open>coeffs == nil\<close>),
  \<open>Some cs\<close> a call with the coefficients \<open>cs\<close>.\<close>

definition NewPolyInts :: "int list option \<Rightarrow> Poly option" where
  "NewPolyInts coeffs = (case coeffs of None \<Rightarrow> Some [0] | Some cs \<Rightarrow> trim cs)"

section \<open>Comparison\<close>

text \<open>The loop of \<open>Compare\<close> runs over the indices \<open>0, 1, ...\<close> of two polynomials of the
  same length and returns at the first index where the coefficients differ.\<close>

fun cmp_coeffs :: "Poly \<Rightarrow> Poly \<Rightarrow> int" where
  "cmp_coeffs (x # xs) (y # ys) =
     (if big_Cmp x y = 1 then 1 else if big_Cmp x y = - 1 then - 1 else cmp_coeffs xs ys)"
| "cmp_coeffs _ _ = 0"

definition Compare :: "Poly \<Rightarrow> Poly \<Rightarrow> int" where
  "Compare p q =
     (if GetDegree p > GetDegree q then 1
      else if GetDegree p < GetDegree q then - 1
      else cmp_coeffs p q)"

section \<open>Addition, negation, subtraction\<close>

text \<open>The loop \<open>r[i].Mod(r[i], m)\<close> over all coefficients.\<close>

fun mod_coeffs :: "Poly \<Rightarrow> int \<Rightarrow> Poly option" where
  "mod_coeffs [] m = Some []"
| "mod_coeffs (a # as) m =
     do { a' \<leftarrow> big_Mod a m; as' \<leftarrow> mod_coeffs as m; Some (a' # as') }"

text \<open>The two copying loops of \<open>Add\<close>, run when \<open>len(q) \<le> len(p)\<close>.\<close>

definition add_coeffs :: "Poly \<Rightarrow> Poly \<Rightarrow> Poly" where
  "add_coeffs p q = map (\<lambda>i. if i < length q then p ! i + q ! i else p ! i) [0..<length p]"

lemma cmp_coeffs_antisym: "cmp_coeffs p q < 0 \<Longrightarrow> \<not> cmp_coeffs q p < 0"
  by (induction p q rule: cmp_coeffs.induct) (auto simp: big_Cmp_def split: if_splits)

lemma Compare_antisym: "Compare p q < 0 \<Longrightarrow> \<not> Compare q p < 0"
  using cmp_coeffs_antisym [of p q]
  by (auto simp: Compare_def split: if_splits)

function Add :: "Poly \<Rightarrow> Poly \<Rightarrow> int option \<Rightarrow> Poly option" where
  "Add p q m =
     (if Compare p q < 0 then Add q p m
      else do {
        r \<leftarrow> Some (add_coeffs p q);
        r' \<leftarrow> (case m of None \<Rightarrow> Some r | Some mv \<Rightarrow> mod_coeffs r mv);
        trim r'
      })"
  by pat_completeness auto
termination
  by (relation "measure (\<lambda>(p, q, m). if Compare p q < 0 then 1 else 0)")
     (auto simp: Compare_antisym)

declare Add.simps [simp del]

definition Neg :: "Poly \<Rightarrow> Poly" where
  "Neg p = map (\<lambda>a. - a) p"

definition Sub :: "Poly \<Rightarrow> Poly \<Rightarrow> int option \<Rightarrow> Poly option" where
  "Sub p q m = Add p (Neg q) m"

text \<open>\<open>Clone\<close> allocates \<open>len(p) + adjust\<close> slots before it looks at the sign of
  \<open>adjust\<close>; \<open>make\<close> panics on a negative length.\<close>

definition Clone :: "Poly \<Rightarrow> int \<Rightarrow> Poly option" where
  "Clone p adjust =
     (if int (length p) + adjust < 0 then None
      else if adjust < 0 then NewPolyInts (Some [0])
      else Some (map (\<lambda>i. if i < nat adjust then 0 else p ! (i - nat adjust))
                     [0..<length p + nat adjust]))"


section \<open>Multiplication\<close>

text \<open>\<open>sanitize\<close> reduces every coefficient modulo \<open>m\<close>; this is its value-level
  reading (the new coefficients). That the Go code writes them into the integers the caller's
  slice points to is the subject of the store model further down.\<close>

definition sanitize :: "Poly \<Rightarrow> int option \<Rightarrow> Poly option" where
  "sanitize p m = (case m of None \<Rightarrow> Some p | Some mv \<Rightarrow> mod_coeffs p mv)"

text \<open>The accumulation \<open>a = p[i]*q[j] + r[i+j]\<close>, reduced when a modulus is given, and the
  two nested loops over \<open>i\<close> and \<open>j\<close>.\<close>

definition mul_acc :: "int option \<Rightarrow> int \<Rightarrow> int option" where
  "mul_acc m a = (case m of None \<Rightarrow> Some a | Some mv \<Rightarrow> big_Mod a mv)"

fun mul_row :: "int \<Rightarrow> nat \<Rightarrow> Poly \<Rightarrow> nat \<Rightarrow> int option \<Rightarrow> Poly \<Rightarrow> Poly option" where
  "mul_row pi i [] j m r = Some r"
| "mul_row pi i (qj # qs) j m r =
     do { a \<leftarrow> mul_acc m (pi * qj + r ! (i + j)); mul_row pi i qs (Suc j) m (r[i + j := a]) }"

fun mul_rows :: "Poly \<Rightarrow> nat \<Rightarrow> Poly \<Rightarrow> int option \<Rightarrow> Poly \<Rightarrow> Poly option" where
  "mul_rows [] i q m r = Some r"
| "mul_rows (pi # ps) i q m r =
     do { r' \<leftarrow> mul_row pi i q 0 m r; mul_rows ps (Suc i) q m r' }"

text \<open>\<open>Mul\<close> after its two calls of \<open>sanitize\<close>; \<open>make\<close> panics on the length \<open>-1\<close>
  (both operands empty).\<close>

definition Mul_body :: "Poly \<Rightarrow> Poly \<Rightarrow> int option \<Rightarrow> Poly option" where
  "Mul_body p q m =
     (if GetDegree p + GetDegree q + 1 < 0 then None
      else do {
        r \<leftarrow> mul_rows p 0 q m (replicate (nat (GetDegree p + GetDegree q + 1)) 0);
        trim r
      })"

definition Mul :: "Poly \<Rightarrow> Poly \<Rightarrow> int option \<Rightarrow> Poly option" where
  "Mul p q m =
     do {
       p \<leftarrow> sanitize p m;
       q \<leftarrow> sanitize q m;
       Mul_body p q m
     }"


section \<open>Division\<close>

text \<open>
  \<open>big.Int.ModInverse\<close>, as \<open>r.ModInverse(g, n)\<close> leaves its receiver: \<open>z\<close> is the value of
  the receiver before the call, which is kept when \<open>g\<close> has no inverse modulo \<open>n\<close>
  (the call then returns \<open>nil\<close>, which \<open>Div\<close> ignores); otherwise the receiver becomes
  the inverse in \<open>[0, |n|)\<close>. A negative \<open>g\<close> is first reduced modulo \<open>|n|\<close>, which
  panics for \<open>n = 0\<close>.
\<close>

definition big_ModInverse :: "int \<Rightarrow> int \<Rightarrow> int \<Rightarrow> int option" where
  "big_ModInverse z g n =
     (let n' = \<bar>n\<bar> in
      do {
        g' \<leftarrow> (if g < 0 then big_Mod g n' else Some g);
        if gcd g' n' \<noteq> 1 then Some z
        else Some (fst (bezw (nat g') (nat n')) mod n')
      })"

text \<open>One iteration of the loop of \<open>Div\<close> either leaves the loop (\<open>break\<close>), returns
  from \<open>Div\<close> on a zero ratio, or goes on with a new quotient array and a new
  running remainder \<open>t\<close>.\<close>

datatype step_result = Exit | Abort | Next Poly Poly

text \<open>The loop \<open>for i := rd; i < len(u); i++\<close> that multiplies the coefficients of \<open>u\<close>
  from index \<open>rd\<close> on by \<open>r\<close>.\<close>

definition scale_coeffs :: "Poly \<Rightarrow> nat \<Rightarrow> int \<Rightarrow> int option \<Rightarrow> Poly option" where
  "scale_coeffs u rd r m =
     (let hi = map (\<lambda>a. a * r) (drop rd u) in
      do {
        hi' \<leftarrow> (case m of None \<Rightarrow> Some hi | Some mv \<Rightarrow> mod_coeffs hi mv);
        Some (take rd u @ hi')
      })"

text \<open>The ratio \<open>r\<close> of the leading coefficients \<open>t[td]\<close> and \<open>q[qd]\<close>.\<close>

definition leading_ratio :: "Poly \<Rightarrow> int option \<Rightarrow> Poly \<Rightarrow> int option" where
  "leading_ratio q m t =
     (let qd = nat (GetDegree q); td = nat (GetDegree t) in
      case m of
        Some mv \<Rightarrow> do { r \<leftarrow> big_ModInverse 0 (q ! qd) mv; big_Mod (r * t ! td) mv }
      | None \<Rightarrow> big_Div (t ! td) (q ! qd))"

text \<open>The loop body. With \<open>rd \<ge> 0\<close> an empty \<open>q\<close> has \<open>qd = -1\<close> and \<open>q[qd]\<close>
  panics; \<open>quo[rd] = r\<close> panics when \<open>rd\<close> is not an index of \<open>quo\<close>.\<close>

definition div_step :: "Poly \<Rightarrow> int option \<Rightarrow> Poly \<Rightarrow> Poly \<Rightarrow> step_result option" where
  "div_step q m quo t =
     (let rd = GetDegree t - GetDegree q in
      if rd < 0 \<or> isZero t then Some Exit
      else if q = [] then None
      else do {
        r \<leftarrow> leading_ratio q m t;
        if big_Cmp r 0 = 0 then Some Abort
        else do {
          u \<leftarrow> Clone q rd;
          u' \<leftarrow> scale_coeffs u (nat rd) r m;
          t' \<leftarrow> Sub t u' m;
          t'' \<leftarrow> trim t';
          if nat rd < length quo then Some (Next (quo[nat rd := r]) t'') else None
        }
      })"

subsection \<open>Facts about the loop body, for the termination of the loop\<close>

lemma Clone_nonneg: "0 \<le> s \<Longrightarrow> Clone p s = Some (replicate (nat s) 0 @ p)"
  by (auto simp: Clone_def intro!: nth_equalityI simp: nth_append)

lemma trim_last_le: "trim_last p n \<le> n"
  by (induction n) auto

lemma trim_last_nonzero: "0 < trim_last p n \<Longrightarrow> p ! trim_last p n \<noteq> 0"
  by (induction n) (auto split: if_splits)

lemma trim_last_above_zero: "trim_last p n < i \<Longrightarrow> i \<le> n \<Longrightarrow> p ! i = 0"
  by (induction n) (auto split: if_splits simp: le_Suc_eq)

lemma trim_last_top: "p ! n \<noteq> 0 \<Longrightarrow> trim_last p n = n"
  by (cases n) auto

lemma trim_last_shrinks: "p ! n = 0 \<Longrightarrow> 0 < n \<Longrightarrow> trim_last p n < n"
  using trim_last_le [of p "n - 1"] by (cases n) auto

lemma trim_last_take: "k \<le> n \<Longrightarrow> n < m \<Longrightarrow> trim_last (take m p) k = trim_last p k"
  by (induction k) auto

text \<open>The invariant of the data model: never empty, and a leading coefficient that is not 0
  when there is more than one coefficient.\<close>

definition canonical :: "Poly \<Rightarrow> bool" where
  "canonical p = (p \<noteq> [] \<and> \<not> (length p > 1 \<and> last p = 0))"

lemma trim_Nil [simp]: "trim [] = None"
  by (simp add: trim_def)

lemma trim_Some:
  assumes "p \<noteq> []"
  shows "trim p = Some (take (Suc (trim_last p (length p - 1))) p)"
  using assms by (simp add: trim_def GetDegree_def nat_diff_distrib')

lemma trim_length:
  assumes "trim p = Some p'"
  shows "p' \<noteq> []" "length p' \<le> length p" "length p' = Suc (trim_last p (length p - 1))"
proof -
  from assms have ne: "p \<noteq> []" by (auto simp: trim_def split: if_splits)
  with assms have p': "p' = take (Suc (trim_last p (length p - 1))) p"
    by (simp add: trim_Some)
  from ne have "Suc (trim_last p (length p - 1)) \<le> length p"
    using trim_last_le [of p "length p - 1"] by (cases p) auto
  with p' ne show "p' \<noteq> []" "length p' \<le> length p" "length p' = Suc (trim_last p (length p - 1))"
    by auto
qed

lemma trim_nth:
  assumes "trim p = Some p'" "i < length p'"
  shows "p' ! i = p ! i"
proof -
  from assms have ne: "p \<noteq> []" by (auto simp: trim_def split: if_splits)
  with assms show ?thesis by (auto simp: trim_Some)
qed

lemma trim_dropped_zero:
  assumes "trim p = Some p'" "length p' \<le> i" "i < length p"
  shows "p ! i = 0"
proof -
  from assms(1) have len: "length p' = Suc (trim_last p (length p - 1))" by (rule trim_length)
  with assms show ?thesis
    by (intro trim_last_above_zero [of p "length p - 1"]) auto
qed

lemma trim_canonical:
  assumes "trim p = Some p'"
  shows "canonical p'"
proof -
  note len = trim_length [OF assms]
  have "last p' \<noteq> 0" if "length p' > 1"
  proof -
    from that len have pos: "0 < trim_last p (length p - 1)" by simp
    have "last p' = p' ! (length p' - 1)" using len(1) by (simp add: last_conv_nth)
    also have "\<dots> = p ! trim_last p (length p - 1)"
      using trim_nth [OF assms, of "length p' - 1"] len by simp
    finally show ?thesis using trim_last_nonzero [OF pos] by simp
  qed
  with len(1) show ?thesis by (simp add: canonical_def)
qed

lemma trim_of_canonical:
  assumes "canonical p"
  shows "trim p = Some p"
proof -
  from assms have ne: "p \<noteq> []" by (simp add: canonical_def)
  have "trim_last p (length p - 1) = length p - 1"
  proof (cases "length p > 1")
    case True
    with assms ne have "p ! (length p - 1) \<noteq> 0" by (simp add: canonical_def last_conv_nth)
    then show ?thesis by (rule trim_last_top)
  next
    case False
    with ne have "length p - 1 = 0" by (cases p) auto
    then show ?thesis by simp
  qed
  with ne show ?thesis by (simp add: trim_Some)
qed

lemma trim_idem: "trim p = Some p' \<Longrightarrow> trim p' = Some p'"
  by (rule trim_of_canonical) (rule trim_canonical)

lemma trim_shrinks:
  assumes "trim p = Some p'" "1 < length p" "last p = 0"
  shows "length p' < length p"
proof -
  from assms have "p ! (length p - 1) = 0" by (cases p rule: rev_cases) auto
  with assms(2) have "trim_last p (length p - 1) < length p - 1"
    by (intro trim_last_shrinks) auto
  with trim_length(3) [OF assms(1)] show ?thesis by simp
qed

lemma trim_single_zero:
  assumes "trim p = Some p'" "length p = 1"
  shows "p' = p"
proof -
  from assms(2) have "canonical p" by (cases p) (auto simp: canonical_def)
  from trim_of_canonical [OF this] assms(1) show ?thesis by simp
qed

lemma mod_coeffs_nonzero: "mv \<noteq> 0 \<Longrightarrow> mod_coeffs p mv = Some (map (\<lambda>a. a mod \<bar>mv\<bar>) p)"
  by (induction p) (auto simp: big_Mod_def)

lemma mod_coeffs_zero: "mod_coeffs p 0 = (if p = [] then Some [] else None)"
  by (cases p) (auto simp: big_Mod_def)

lemma mod_coeffs_Some:
  "mod_coeffs p mv = Some p' \<Longrightarrow> p' = map (\<lambda>a. a mod \<bar>mv\<bar>) p"
  by (cases "mv = 0") (auto simp: mod_coeffs_nonzero mod_coeffs_zero split: if_splits)

lemma add_coeffs_same_length:
  "length p = length q \<Longrightarrow> add_coeffs p q = map2 (+) p q"
  by (auto simp: add_coeffs_def intro!: nth_equalityI)

lemma map2_add_commute: "map2 (+) p q = map2 (+) q (p :: int list)"
  by (induction p q rule: list_induct2') auto

lemma Add_same_length:
  assumes "length p = length q"
  shows "Add p q m =
           do { r' \<leftarrow> (case m of None \<Rightarrow> Some (map2 (+) p q)
                               | Some mv \<Rightarrow> mod_coeffs (map2 (+) p q) mv);
                trim r' }"
proof (cases "Compare p q < 0")
  case True
  then have "\<not> Compare q p < 0" by (rule Compare_antisym)
  with True assms show ?thesis
    by (subst Add.simps, simp, subst Add.simps)
       (simp add: add_coeffs_same_length map2_add_commute [of q p])
next
  case False
  with assms show ?thesis
    by (subst Add.simps) (simp add: add_coeffs_same_length)
qed

text \<open>Reduction into \<open>[0, |m|)\<close> when a modulus is given, and what one iteration leaves
  in \<open>t\<close> before trimming, coefficient by coefficient.\<close>

definition reduce :: "int option \<Rightarrow> int \<Rightarrow> int" where
  "reduce m x = (case m of None \<Rightarrow> x | Some mv \<Rightarrow> x mod \<bar>mv\<bar>)"

definition sub_shifted :: "Poly \<Rightarrow> Poly \<Rightarrow> nat \<Rightarrow> int \<Rightarrow> int option \<Rightarrow> Poly" where
  "sub_shifted t q rd r m =
     map (\<lambda>i. reduce m (t ! i - (if i < rd then 0 else reduce m (q ! (i - rd) * r))))
         [0..<length t]"

lemma reduce_coeffs:
  assumes "m \<noteq> Some 0"
  shows "(case m of None \<Rightarrow> Some p | Some mv \<Rightarrow> mod_coeffs p mv) = Some (map (reduce m) p)"
proof (cases m)
  case None
  have "map (reduce None) p = p" by (induction p) (auto simp: reduce_def)
  with None show ?thesis by simp
next
  case (Some mv)
  have "map (reduce (Some mv)) p = map (\<lambda>a. a mod \<bar>mv\<bar>) p"
    by (induction p) (auto simp: reduce_def)
  with Some assms show ?thesis by (simp add: mod_coeffs_nonzero)
qed

lemma leading_ratio_mod_zero: "leading_ratio q (Some 0) t = None"
  by (auto simp: leading_ratio_def big_ModInverse_def big_Mod_def Let_def
           split: Option.bind_splits if_splits)

lemma scale_coeffs_shifted:
  assumes "m \<noteq> Some 0"
  shows "scale_coeffs (replicate rd 0 @ q) rd r m
           = Some (replicate rd 0 @ map (\<lambda>a. reduce m (a * r)) q)"
  using reduce_coeffs [OF assms, of "map (\<lambda>a. a * r) q"]
  by (simp add: scale_coeffs_def Let_def comp_def)

lemma Sub_same_length:
  assumes "length u = length t" "m \<noteq> Some 0"
  shows "Sub t u m = trim (map (\<lambda>i. reduce m (t ! i - u ! i)) [0..<length t])"
proof -
  have eq: "map (reduce m) (map2 (+) t (Neg u)) = map (\<lambda>i. reduce m (t ! i - u ! i)) [0..<length t]"
    using assms(1) by (auto simp: Neg_def intro!: nth_equalityI)
  have "Sub t u m = trim (map (reduce m) (map2 (+) t (Neg u)))"
    unfolding Sub_def using assms(1) reduce_coeffs [OF assms(2), of "map2 (+) t (Neg u)"]
    by (subst Add_same_length) (simp_all add: Neg_def)
  then show ?thesis by (simp only: eq)
qed

lemma div_step_Next:
  assumes "div_step q m quo t = Some (Next quo' t')"
  obtains r where "q \<noteq> []" "length q \<le> length t" "\<not> isZero t"
    "leading_ratio q m t = Some r" "r \<noteq> 0" "m \<noteq> Some 0"
    "length t - length q < length quo" "quo' = quo[length t - length q := r]"
    "trim (sub_shifted t q (length t - length q) r m) = Some t'"
proof -
  let ?rd = "GetDegree t - GetDegree q"
  from assms have ex: "\<not> (?rd < 0 \<or> isZero t)" and ne: "q \<noteq> []"
    by (auto simp: div_step_def Let_def split: if_splits)
  then have le: "length q \<le> length t" and rd: "nat ?rd = length t - length q" "0 \<le> ?rd"
    by (auto simp: GetDegree_def)
  from assms ex ne obtain r where r: "leading_ratio q m t = Some r" and r0: "big_Cmp r 0 \<noteq> 0"
    by (auto simp: div_step_def Let_def split: if_splits Option.bind_splits)
  from r have m0: "m \<noteq> Some 0" using leading_ratio_mod_zero by auto
  let ?u' = "replicate (nat ?rd) 0 @ map (\<lambda>a. reduce m (a * r)) q"
  have len: "length ?u' = length t" using le rd by simp
  from assms ex ne r r0 rd(2) obtain t0 where
    t0: "Sub t ?u' m = Some t0" and t': "trim t0 = Some t'"
    and q': "nat ?rd < length quo" "quo' = quo[nat ?rd := r]"
    by (auto simp: div_step_def Let_def Clone_nonneg scale_coeffs_shifted [OF m0]
             split: if_splits Option.bind_splits)
  have "map (\<lambda>i. reduce m (t ! i - ?u' ! i)) [0..<length t]
          = sub_shifted t q (length t - length q) r m"
    using le rd by (auto simp: sub_shifted_def nth_append intro!: nth_equalityI)
  with t0 have "trim (sub_shifted t q (length t - length q) r m) = Some t0"
    by (simp add: Sub_same_length [OF len m0])
  moreover from this t' have "t' = t0" using trim_idem by fastforce
  ultimately show ?thesis
    using that [of r] ne le ex r r0 m0 q' rd by (auto simp: big_Cmp_def split: if_splits)
qed

lemma bezw_inverse:
  assumes "gcd g n = 1" "0 \<le> g" "0 \<le> (n::int)"
  shows "(fst (bezw (nat g) (nat n)) * g) mod n = 1 mod n"
proof -
  have "gcd (int (nat g)) (int (nat n)) = int (gcd (nat g) (nat n))"
    by (rule gcd_int_int_eq)
  with assms have "gcd (nat g) (nat n) = 1" by simp
  with bezw_aux [of "nat g" "nat n"] assms
  have "fst (bezw (nat g) (nat n)) * g + snd (bezw (nat g) (nat n)) * n = 1" by simp
  then have "fst (bezw (nat g) (nat n)) * g = 1 - snd (bezw (nat g) (nat n)) * n" by simp
  then show ?thesis by (simp add: mod_diff_right_eq [symmetric])
qed

lemma big_ModInverse_inverse:
  assumes "big_ModInverse 0 b mv = Some r0" "(r0 * a) mod \<bar>mv\<bar> \<noteq> 0" "mv \<noteq> 0"
  shows "(r0 * b) mod \<bar>mv\<bar> = 1 mod \<bar>mv\<bar>"
proof -
  define g where "g = (if b < 0 then b mod \<bar>mv\<bar> else b)"
  have g: "0 \<le> g" "g mod \<bar>mv\<bar> = b mod \<bar>mv\<bar>"
    using assms(3) by (auto simp: g_def)
  from assms(2) have "r0 \<noteq> 0" by auto
  with assms(1,3) have cop: "gcd g \<bar>mv\<bar> = 1"
    and r0: "r0 = fst (bezw (nat g) (nat \<bar>mv\<bar>)) mod \<bar>mv\<bar>"
    by (auto simp: big_ModInverse_def big_Mod_def Let_def g_def split: if_splits)
  have "(r0 * b) mod \<bar>mv\<bar> = (r0 * (g mod \<bar>mv\<bar>)) mod \<bar>mv\<bar>"
    by (simp add: g(2) mod_mult_right_eq)
  also have "\<dots> = (fst (bezw (nat g) (nat \<bar>mv\<bar>)) * g) mod \<bar>mv\<bar>"
    by (simp add: r0 mod_mult_eq)
  also have "\<dots> = 1 mod \<bar>mv\<bar>"
    using bezw_inverse [OF cop g(1)] by simp
  finally show ?thesis .
qed

lemma nat_GetDegree: "p \<noteq> [] \<Longrightarrow> p ! nat (GetDegree p) = last p"
  by (simp add: GetDegree_def last_conv_nth nat_diff_distrib')

lemma leading_ratio_None:
  assumes "leading_ratio q None t = Some r" "q \<noteq> []" "t \<noteq> []"
  shows "last q \<noteq> 0" "r = sgn (last q) * (last t div \<bar>last q\<bar>)"
proof -
  from assms have "big_Div (last t) (last q) = Some r"
    by (simp add: leading_ratio_def nat_GetDegree)
  then show "last q \<noteq> 0" "r = sgn (last q) * (last t div \<bar>last q\<bar>)"
    by (auto simp: big_Div_def split: if_splits)
qed

lemma leading_ratio_SomeD:
  assumes "leading_ratio q (Some mv) t = Some r" "q \<noteq> []" "t \<noteq> []"
  obtains r0 where "big_ModInverse 0 (last q) mv = Some r0" "r = (r0 * last t) mod \<bar>mv\<bar>" "mv \<noteq> 0"
proof -
  from assms have "do { r \<leftarrow> big_ModInverse 0 (last q) mv; big_Mod (r * last t) mv } = Some r"
    by (simp add: leading_ratio_def nat_GetDegree)
  then obtain r0 where "big_ModInverse 0 (last q) mv = Some r0" "big_Mod (r0 * last t) mv = Some r"
    by (auto split: Option.bind_splits)
  then show ?thesis using that by (auto simp: big_Mod_def split: if_splits)
qed

lemma euclid_remainder:
  fixes a b :: int
  shows "a - b * (sgn b * (a div \<bar>b\<bar>)) = a mod \<bar>b\<bar>"
proof -
  have "b * sgn b = \<bar>b\<bar>" by (simp add: abs_sgn mult.commute)
  then have "b * (sgn b * (a div \<bar>b\<bar>)) = \<bar>b\<bar> * (a div \<bar>b\<bar>)"
    by (simp only: mult.assoc [symmetric])
  then show ?thesis by (simp only: minus_mult_div_eq_mod)
qed

lemma cancel_mod:
  fixes r0 lq lt n :: int
  assumes inv: "(r0 * lq) mod n = 1 mod n" and r: "r = (r0 * lt) mod n"
  shows "(lt - (lq * r) mod n) mod n = 0"
proof -
  have "(lq * r) mod n = (lq * (r0 * lt)) mod n"
    unfolding r by (rule mod_mult_right_eq)
  also have "lq * (r0 * lt) = (r0 * lq) * lt" by (simp only: ac_simps)
  also have "((r0 * lq) * lt) mod n = ((r0 * lq) mod n * lt) mod n"
    by (simp only: mod_mult_left_eq)
  also have "\<dots> = (1 * lt) mod n"
    unfolding inv by (rule mod_mult_left_eq)
  finally have "(lq * r) mod n = lt mod n" by simp
  then have "(lt - (lq * r) mod n) mod n = (lt - lt mod n) mod n" by simp
  also have "\<dots> = 0" by (simp add: mod_diff_right_eq)
  finally show ?thesis .
qed

lemma leading_ratio_Some_cancels:
  assumes "leading_ratio q (Some mv) t = Some r" "r \<noteq> 0" "q \<noteq> []" "t \<noteq> []"
  shows "(last t - (last q * r) mod \<bar>mv\<bar>) mod \<bar>mv\<bar> = 0"
proof -
  from assms(1,3,4) obtain r0 where r0: "big_ModInverse 0 (last q) mv = Some r0"
    and r: "r = (r0 * last t) mod \<bar>mv\<bar>" and mv: "mv \<noteq> 0"
    by (rule leading_ratio_SomeD)
  from r assms(2) have "(r0 * last t) mod \<bar>mv\<bar> \<noteq> 0" by simp
  from big_ModInverse_inverse [OF r0 this mv] r show ?thesis by (rule cancel_mod)
qed

lemma length_sub_shifted [simp]: "length (sub_shifted t q rd r m) = length t"
  by (simp add: sub_shifted_def)

lemma sub_shifted_last:
  assumes "q \<noteq> []" "length q \<le> length t"
  shows "last (sub_shifted t q (length t - length q) r m)
           = reduce m (last t - reduce m (last q * r))"
proof -
  from assms have t: "t \<noteq> []" by auto
  let ?L = "length t - 1"
  from assms t have idx: "?L - (length t - length q) = length q - 1" "\<not> ?L < length t - length q"
    by (cases q; cases t; auto)+
  have "last (sub_shifted t q (length t - length q) r m)
          = sub_shifted t q (length t - length q) r m ! ?L"
    using t by (subst last_conv_nth) (simp_all add: sub_shifted_def)
  also have "\<dots> = reduce m (t ! ?L - reduce m (q ! (length q - 1) * r))"
    using t idx by (simp add: sub_shifted_def)
  finally show ?thesis using t assms(1) by (simp add: last_conv_nth)
qed

lemma step_leading_coefficient:
  assumes "leading_ratio q m t = Some r" "r \<noteq> 0" "q \<noteq> []" "length q \<le> length t"
  shows "last (sub_shifted t q (length t - length q) r m) = 0
         \<or> (m = None \<and> last q \<noteq> 0
              \<and> last (sub_shifted t q (length t - length q) r m) = last t mod \<bar>last q\<bar>)"
proof -
  from assms have t: "t \<noteq> []" by auto
  show ?thesis
  proof (cases m)
    case None
    with assms t have "last q \<noteq> 0" "r = sgn (last q) * (last t div \<bar>last q\<bar>)"
      using leading_ratio_None [of q t r] by auto
    with None show ?thesis
      by (simp add: sub_shifted_last [OF assms(3,4)] reduce_def euclid_remainder)
  next
    case (Some mv)
    with assms t have "(last t - (last q * r) mod \<bar>mv\<bar>) mod \<bar>mv\<bar> = 0"
      using leading_ratio_Some_cancels [of q mv t r] by auto
    with Some show ?thesis
      by (simp add: sub_shifted_last [OF assms(3,4)] reduce_def)
  qed
qed

lemma div_step_Exit_zero:
  assumes "length q \<le> length t" "isZero t"
  shows "div_step q m quo t = Some Exit"
  using assms by (simp add: div_step_def)

lemma div_step_inexact_aborts:
  assumes "q \<noteq> []" "length q \<le> length t" "last q \<noteq> 0" "last t div \<bar>last q\<bar> = 0"
  shows "div_step q None quo t = Some Exit \<or> div_step q None quo t = Some Abort"
proof -
  from assms have t: "t \<noteq> []" by auto
  from assms t have "leading_ratio q None t = Some 0"
    by (simp add: leading_ratio_def nat_GetDegree big_Div_def)
  with assms show ?thesis
    by (auto simp: div_step_def Let_def big_Cmp_def GetDegree_def)
qed

lemma div_step_decreases:
  assumes "div_step q m quo t = Some (Next quo' t')"
  shows "length t' < length t
         \<or> (length t' = length t
             \<and> (div_step q m quo' t' = Some Exit \<or> div_step q m quo' t' = Some Abort))"
proof -
  from assms obtain r where ne: "q \<noteq> []" and le: "length q \<le> length t"
    and r: "leading_ratio q m t = Some r" "r \<noteq> 0"
    and tr: "trim (sub_shifted t q (length t - length q) r m) = Some t'"
    by (rule div_step_Next)
  let ?X = "sub_shifted t q (length t - length q) r m"
  from ne le have t: "t \<noteq> []" by auto
  have len': "length t' \<le> length t" using trim_length(2) [OF tr] by simp
  from step_leading_coefficient [OF r ne le]
  consider (zero) "last ?X = 0"
    | (rest) "m = None" "last q \<noteq> 0" "last ?X = last t mod \<bar>last q\<bar>" "last ?X \<noteq> 0"
    by blast
  then show ?thesis
  proof cases
    case zero
    show ?thesis
    proof (cases "1 < length t")
      case True
      with trim_shrinks [OF tr] zero show ?thesis by simp
    next
      case False
      with t have one: "length ?X = 1" by (cases t) auto
      from trim_single_zero [OF tr one] have eq: "t' = ?X" .
      with one zero have "t' = [0]" by (cases ?X) auto
      moreover from False t have "length t = 1" by (cases t) auto
      with le have "length q \<le> length [0::int]" by simp
      ultimately show ?thesis
        using False t div_step_Exit_zero [of q "[0]" m quo']
        by (cases t) (auto simp: isZero_def GetDegree_def big_Cmp_def)
    qed
  next
    case rest
    from t have "?X \<noteq> []" by (simp add: sub_shifted_def)
    with rest(4) have "canonical ?X" by (simp add: canonical_def)
    from trim_of_canonical [OF this] tr have eq: "t' = ?X" by simp
    have "last ?X div \<bar>last q\<bar> = 0"
      using rest(2) by (simp add: rest(3) div_pos_pos_trivial)
    with div_step_inexact_aborts [OF ne _ rest(2), of ?X quo'] le rest(1) eq
    show ?thesis by simp
  qed
qed

text \<open>The loop of \<open>Div\<close>: it ends by \<open>break\<close> with the quotient array and the running
  remainder, or by the early \<open>return\<close> of the zero-ratio branch.\<close>

datatype loop_result = Aborted | Finished Poly Poly

function div_loop :: "Poly \<Rightarrow> int option \<Rightarrow> Poly \<Rightarrow> Poly \<Rightarrow> loop_result option" where
  "div_loop q m quo t =
     (case div_step q m quo t of
        None \<Rightarrow> None
      | Some Exit \<Rightarrow> Some (Finished quo t)
      | Some Abort \<Rightarrow> Some Aborted
      | Some (Next quo' t') \<Rightarrow> div_loop q m quo' t')"
  by pat_completeness auto
termination
proof (relation "measure (\<lambda>(q, m, quo, t).
         2 * length t + (case div_step q m quo t of Some (Next _ _) \<Rightarrow> 1 | _ \<Rightarrow> 0))")
  fix q m quo t x2 x23 x24
  assume "div_step q m quo t = Some x2" "x2 = Next x23 x24"
  then have step: "div_step q m quo t = Some (Next x23 x24)" by simp
  from div_step_decreases [OF step] step
  show "((q, m, x23, x24), (q, m, quo, t)) \<in> measure (\<lambda>(q, m, quo, t).
         2 * length t + (case div_step q m quo t of Some (Next _ _) \<Rightarrow> 1 | _ \<Rightarrow> 0))"
    by (auto split: option.splits step_result.splits)
qed simp

declare div_loop.simps [simp del]

text \<open>\<open>Div\<close> after its two calls of \<open>sanitize\<close>: the early return and the zero-ratio
  return hand back \<open>p.Clone(0)\<close> as it is, the normal exit trims quotient and
  remainder.\<close>

definition Div_body :: "Poly \<Rightarrow> Poly \<Rightarrow> int option \<Rightarrow> (Poly \<times> Poly) option" where
  "Div_body p q m =
     (if GetDegree p < GetDegree q \<or> isZero q then
        do { quo \<leftarrow> NewPolyInts (Some [0]); rem \<leftarrow> Clone p 0; Some (quo, rem) }
      else do {
        t \<leftarrow> Clone p 0;
        res \<leftarrow> div_loop q m (replicate (nat (GetDegree p - GetDegree q + 1)) 0) t;
        case res of
          Aborted \<Rightarrow> do { quo \<leftarrow> NewPolyInts (Some [0]); rem \<leftarrow> Clone p 0; Some (quo, rem) }
        | Finished quo t \<Rightarrow> do { quo' \<leftarrow> trim quo; rem \<leftarrow> trim t; Some (quo', rem) }
      })"

text \<open>\<open>Div\<close>: both operands are reduced modulo \<open>m\<close> first.\<close>

definition Div :: "Poly \<Rightarrow> Poly \<Rightarrow> int option \<Rightarrow> (Poly \<times> Poly) option" where
  "Div p q m =
     do {
       p \<leftarrow> sanitize p m;
       q \<leftarrow> sanitize q m;
       Div_body p q m
     }"

section \<open>Greatest common divisor, evaluation\<close>

text \<open>\<open>Gcd\<close> is recursive with no bound on its depth, so it is a partial function: the
  outer \<open>None\<close> says that the call does not return, \<open>Some None\<close> that it panics and
  \<open>Some (Some g)\<close> that it returns \<open>g\<close>.\<close>

partial_function (option) Gcd :: "Poly \<Rightarrow> Poly \<Rightarrow> int option \<Rightarrow> Poly option option" where
  "Gcd p q m =
     (if Compare p q < 0 then Gcd q p m
      else if isZero q then Some (Some p)
      else case Div p q m of
             None \<Rightarrow> Some None
           | Some (quo, rem) \<Rightarrow> Gcd q rem m)"

text \<open>The loop of \<open>Eval\<close> with its two accumulators \<open>y\<close> and \<open>accx\<close>.\<close>

fun eval_loop :: "Poly \<Rightarrow> int \<Rightarrow> int option \<Rightarrow> int \<Rightarrow> int \<Rightarrow> int option" where
  "eval_loop [] x m y accx = Some y"
| "eval_loop (c # cs) x m y accx =
     (let xd = accx * c; y = y + xd; accx = accx * x in
      case m of
        None \<Rightarrow> eval_loop cs x m y accx
      | Some mv \<Rightarrow> do { y' \<leftarrow> big_Mod y mv; accx' \<leftarrow> big_Mod accx mv;
                        eval_loop cs x m y' accx' })"

definition Eval :: "Poly \<Rightarrow> int \<Rightarrow> int option \<Rightarrow> int option" where
  "Eval p x m = eval_loop p x m 0 1"

section \<open>Share generation\<close>

text \<open>
  Modelled from the spec: the type \<open>Point\<close> is declared outside \<open>src/\<close>; the data model of
  the specification has it as a pair of integers \<open>(x, y)\<close>, and \<open>GenRandomShares\<close> writes
  its fields \<open>x\<close> and \<open>y\<close>.
\<close>

record Point =
  Point_x :: int
  Point_y :: int

text \<open>The loop that fills the shares, over the values that the successive calls of
  \<open>RandomBigInt\<close> return.\<close>

fun gen_points :: "Poly \<Rightarrow> int \<Rightarrow> int list \<Rightarrow> Point list option" where
  "gen_points p q [] = Some []"
| "gen_points p q (r # rs) =
     do {
       r' \<leftarrow> big_Mod r q;
       y \<leftarrow> Eval p r' (Some q);
       ps \<leftarrow> gen_points p q rs;
       Some (\<lparr>Point_x = r', Point_y = y\<rparr> # ps)
     }"

text \<open>
  \<open>GenRandomShares\<close>. Two things it calls are parameters of the model: the primality
  test \<open>q.ProbablyPrime(100)\<close> of the big-integer library, and the helper
  \<open>RandomBigInt\<close>, which is not under \<open>src/\<close>; \<open>RandomBigInt i\<close> stands for the value
  that the \<open>i\<close>-th call of the helper returns (the first \<open>k\<close> calls draw the
  coefficients, the next \<open>n\<close> the x-coordinates). \<open>make\<close> panics on a negative \<open>k\<close> or
  \<open>n\<close>. The polynomial is returned as drawn, without \<open>trim\<close>.
\<close>

definition GenRandomShares ::
  "(int \<Rightarrow> bool) \<Rightarrow> (nat \<Rightarrow> int) \<Rightarrow> int \<Rightarrow> int \<Rightarrow> int \<Rightarrow> (Point list \<times> Poly) option" where
  "GenRandomShares ProbablyPrime RandomBigInt n k q =
     (if \<not> ProbablyPrime q then Some ([], [])
      else if k < 0 then None
      else do {
        p \<leftarrow> mod_coeffs (map RandomBigInt [0..<nat k]) q;
        if n < 0 then None
        else do {
          ps \<leftarrow> gen_points p q (map RandomBigInt [nat k..<nat k + nat n]);
          Some (ps, p)
        }
      })"

section \<open>Properties of comparison and addition\<close>


lemma cmp_coeffs_eq_0:
  "length p = length q \<Longrightarrow> cmp_coeffs p q = 0 \<Longrightarrow> p = q"
  by (induction p q rule: cmp_coeffs.induct) (auto simp: big_Cmp_def split: if_splits)

lemma cmp_coeffs_pos_flip: "cmp_coeffs p q > 0 \<Longrightarrow> cmp_coeffs q p < 0"
  by (induction p q rule: cmp_coeffs.induct) (auto simp: big_Cmp_def split: if_splits)

lemma Compare_both_ge_eq:
  assumes "\<not> Compare p q < 0" and "\<not> Compare q p < 0"
  shows "p = q"
proof -
  from assms have len: "length p = length q"
    by (auto simp: Compare_def GetDegree_def split: if_splits)
  with assms have "\<not> cmp_coeffs p q < 0" "\<not> cmp_coeffs q p < 0"
    by (auto simp: Compare_def GetDegree_def)
  with cmp_coeffs_pos_flip [of p q] have "cmp_coeffs p q = 0"
    by (cases "cmp_coeffs p q > 0") auto
  with len show ?thesis by (rule cmp_coeffs_eq_0)
qed

text \<open>
  Claim C7. \<open>Add\<close> is commutative: for all polynomials \<open>p\<close>, \<open>q\<close> and every modulus
  \<open>m\<close> (also no modulus), \<open>Add p q m\<close> and \<open>Add q p m\<close> are the same result,
  coefficient by coefficient, whichever operand the comparison puts first (and one
  call panics exactly when the other does).
\<close>

theorem Add_commutative: "Add p q m = Add q p m"
proof (cases "Compare p q < 0")
  case True
  then show ?thesis by (subst Add.simps) simp
next
  case pq: False
  show ?thesis
  proof (cases "Compare q p < 0")
    case True
    then show ?thesis by (subst (2) Add.simps) simp
  next
    case False
    with pq have "p = q" by (rule Compare_both_ge_eq)
    then show ?thesis by simp
  qed
qed

section \<open>The order of \<open>Compare\<close>\<close>

text \<open>
  Two readings of "by degree, then by coefficients" in the words of the specification:
  the longer polynomial is the greater; for equal lengths the first index at which the
  coefficients differ decides, and the two readings differ in where the search for that
  index starts.
\<close>

definition compare_lowest_first :: "Poly \<Rightarrow> Poly \<Rightarrow> int" where
  "compare_lowest_first p q =
     (if length p > length q then 1
      else if length p < length q then - 1
      else case List.find (\<lambda>i. p ! i \<noteq> q ! i) [0..<length p] of
             None \<Rightarrow> 0
           | Some i \<Rightarrow> if p ! i > q ! i then 1 else - 1)"

definition compare_highest_first :: "Poly \<Rightarrow> Poly \<Rightarrow> int" where
  "compare_highest_first p q =
     (if length p > length q then 1
      else if length p < length q then - 1
      else case List.find (\<lambda>i. p ! i \<noteq> q ! i) (rev [0..<length p]) of
             None \<Rightarrow> 0
           | Some i \<Rightarrow> if p ! i > q ! i then 1 else - 1)"


lemma find_map_comp: "List.find P (map f xs) = map_option f (List.find (P \<circ> f) xs)"
  by (induction xs) auto

lemma find_upt_Suc:
  "List.find P [0..<Suc n] = (if P 0 then Some 0 else map_option Suc (List.find (P \<circ> Suc) [0..<n]))"
proof -
  have "[0..<Suc n] = 0 # map Suc [0..<n]"
    by (simp add: upt_conv_Cons map_Suc_upt del: upt_Suc)
  then show ?thesis by (simp add: find_map_comp del: upt_Suc)
qed

lemma cmp_coeffs_first_diff:
  "length p = length q \<Longrightarrow>
   cmp_coeffs p q = (case List.find (\<lambda>i. p ! i \<noteq> q ! i) [0..<length p] of
                       None \<Rightarrow> 0 | Some i \<Rightarrow> if p ! i > q ! i then 1 else - 1)"
proof (induction p q rule: cmp_coeffs.induct)
  case (1 x xs y ys)
  then show ?case
    by (simp add: find_upt_Suc big_Cmp_def comp_def option.case_eq_if option.map_sel del: upt_Suc)
qed simp_all

text \<open>
  Claim C5, as amended. \<open>Compare p q\<close> is decided by the degree first (the higher degree is
  the greater); for equal degrees the coefficients are compared from the LOWEST index to
  the highest, the first index with different coefficients decides (1 if the coefficient of
  \<open>p\<close> is the greater, -1 otherwise), and the result is 0 when all coefficients agree.
\<close>

theorem Compare_lowest_first: "Compare p q = compare_lowest_first p q"
  by (auto simp: Compare_def compare_lowest_first_def GetDegree_def cmp_coeffs_first_diff)

text \<open>
  Claim C5 as stated (coefficients compared from the highest degree down) fails:
  for \<open>p = 2x + 1\<close> and \<open>q = x + 2\<close> the code compares the constant terms first and
  answers "less", where the claim compares the leading coefficients and answers "greater".
\<close>

theorem Compare_highest_first_counterexample:
  "Compare [1, 2] [2, 1] = - 1 \<and> compare_highest_first [1, 2] [2, 1] = 1"
  by (simp add: Compare_def compare_highest_first_def GetDegree_def big_Cmp_def)

section \<open>Cloning with a shift\<close>

text \<open>
  Claim C4, at the input where it fails. The claim: for every negative shift \<open>s\<close>,
  \<open>Clone\<close> yields the zero polynomial and never panics. The code allocates
  \<open>make([]*big.Int, len(p)+adjust)\<close> before it tests \<open>adjust < 0\<close>, so a shift below
  \<open>-len(p)\<close> panics: \<open>Clone\<close> of the constant polynomial 1 with shift \<open>-2\<close> does not
  return.
\<close>

theorem Clone_negative_panics: "Clone [1] (- 2) = None"
  by (simp add: Clone_def)

text \<open>The rest of the claim holds: a negative shift of at most \<open>len(p)\<close> gives the zero
  polynomial, and a shift \<open>s \<ge> 0\<close> gives the coefficients of \<open>p\<close> behind \<open>s\<close> zeros
  (lemma \<open>Clone_nonneg\<close>).\<close>

lemma Clone_negative_small:
  "s < 0 \<Longrightarrow> - int (length p) \<le> s \<Longrightarrow> Clone p s = Some [0]"
  by (simp add: Clone_def NewPolyInts_def trim_def GetDegree_def)

section \<open>The early return of \<open>Div\<close>\<close>

lemma sanitize_Some:
  assumes "m \<noteq> Some 0"
  shows "sanitize p m = Some (map (reduce m) p)"
  using reduce_coeffs [OF assms, of p] by (simp add: sanitize_def)

lemma isZero_iff: "isZero p \<longleftrightarrow> p = [0]"
  by (cases p) (auto simp: isZero_def GetDegree_def big_Cmp_def)

lemma reduce_zero [simp]: "reduce m 0 = 0"
  by (simp add: reduce_def split: option.splits)

lemma map_reduce_None: "map (reduce None) p = p"
  by (induction p) (auto simp: reduce_def)

lemma map_reduce_Some: "map (reduce (Some mv)) p = map (\<lambda>a. a mod \<bar>mv\<bar>) p"
  by (induction p) (auto simp: reduce_def)

text \<open>
  Claim C3, as amended. If \<open>deg p < deg q\<close> or \<open>q\<close> is the zero polynomial, \<open>Div\<close> returns
  the zero polynomial as quotient and, as remainder, \<open>p\<close> itself when no modulus is given
  and \<open>p\<close> with every coefficient reduced into \<open>[0, |m|)\<close> when the modulus \<open>m\<close> is
  given (a modulus 0 panics on a nonempty operand and is left out).
\<close>

theorem Div_early_return:
  assumes "GetDegree p < GetDegree q \<or> isZero q" and "m \<noteq> Some 0"
  shows "Div p q m = Some ([0], case m of None \<Rightarrow> p | Some mv \<Rightarrow> map (\<lambda>a. a mod \<bar>mv\<bar>) p)"
proof -
  have z: "isZero (map (reduce m) q)" if "isZero q"
    using that by (simp add: isZero_iff)
  have r: "map (reduce m) p = (case m of None \<Rightarrow> p | Some mv \<Rightarrow> map (\<lambda>a. a mod \<bar>mv\<bar>) p)"
    by (cases m) (simp_all add: map_reduce_None map_reduce_Some)
  have "Div p q m = Some ([0], map (reduce m) p)"
    using assms(1) z
    by (auto simp: Div_def Div_body_def sanitize_Some [OF assms(2)] GetDegree_def NewPolyInts_def
                   trim_def Clone_nonneg)
  then show ?thesis by (simp only: r)
qed

theorem Div_early_return_witness:
  "Div [7] [0] (Some 5) = Some ([0], [2])"
  using Div_early_return [of "[7]" "[0]" "Some 5"]
  by (simp add: isZero_def GetDegree_def big_Cmp_def)

text \<open>
  Claim C3 as stated (the remainder is \<open>p\<close> unchanged, with or without modulus) fails:
  dividing the constant 7 by the zero polynomial modulo 5 returns the remainder 2.
\<close>

theorem Div_remainder_unchanged_counterexample:
  "isZero [0] \<and> Div [7] [0] (Some 5) \<noteq> Some ([0], [7])"
  by code_simp

section \<open>Canonical form of the results\<close>

text \<open>
  Claim C8, at the input where it fails. The claim: every polynomial a public operation
  returns is canonical, the remainder of \<open>Div\<close> on its early-return and abort paths
  included. Those two paths return \<open>p.Clone(0)\<close> without trimming it, after \<open>p\<close> was
  reduced modulo \<open>m\<close>: for the canonical \<open>p = 5x + 1\<close>, \<open>q = x^2 + x + 1\<close> and the
  modulus 5 the remainder is \<open>[1, 0]\<close>, with a leading coefficient 0.
\<close>

theorem Div_early_return_not_canonical:
  "canonical [1, 5] \<and> canonical [1, 1, 1]
   \<and> Div [1, 5] [1, 1, 1] (Some 5) = Some ([0], [1, 0]) \<and> \<not> canonical [1, 0]"
  by code_simp

text \<open>The abort path does the same: \<open>5x + 1\<close> divided by \<open>x + 1\<close> modulo 5.\<close>

lemma Div_abort_not_canonical:
  "Div [1, 5] [1, 1] (Some 5) = Some ([0], [1, 0])"
  by code_simp

text \<open>The parts of the claim that hold: what \<open>trim\<close> returns is canonical and \<open>trim\<close> is
  idempotent (lemmas \<open>trim_canonical\<close>, \<open>trim_idem\<close>); every result of \<open>NewPolyInts\<close>,
  \<open>Add\<close>, \<open>Sub\<close> and \<open>Mul\<close> is canonical, so is every quotient of \<open>Div\<close>, and so is
  its remainder when no modulus is given and the dividend is canonical.\<close>

lemma Add_canonical: "Add p q m = Some r \<Longrightarrow> canonical r"
proof (induction p q m rule: Add.induct)
  case (1 p q m)
  show ?case
  proof (cases "Compare p q < 0")
    case True
    with "1.prems" have "Add q p m = Some r" by (subst (asm) Add.simps) simp
    with True "1.IH" show ?thesis by simp
  next
    case False
    with "1.prems" obtain r' where "trim r' = Some r"
      by (subst (asm) Add.simps) (auto split: Option.bind_splits)
    then show ?thesis by (rule trim_canonical)
  qed
qed

lemma NewPolyInts_canonical: "NewPolyInts cs = Some p \<Longrightarrow> canonical p"
  by (cases cs) (auto simp: NewPolyInts_def canonical_def dest: trim_canonical)

lemma Sub_canonical: "Sub p q m = Some r \<Longrightarrow> canonical r"
  unfolding Sub_def by (rule Add_canonical)

lemma Mul_canonical: "Mul p q m = Some r \<Longrightarrow> canonical r"
  by (auto simp: Mul_def Mul_body_def split: Option.bind_splits if_splits dest: trim_canonical)

lemma Div_quotient_canonical:
  assumes "Div p q m = Some (quo, rem)"
  shows "canonical quo"
proof -
  from assms obtain p' q' where b: "Div_body p' q' m = Some (quo, rem)"
    by (auto simp: Div_def split: Option.bind_splits)
  then have "quo = [0] \<or> (\<exists>quoF. trim quoF = Some quo)"
    by (auto simp: Div_body_def NewPolyInts_def trim_def GetDegree_def
             split: Option.bind_splits if_splits loop_result.splits)
  then show ?thesis by (auto simp: canonical_def dest: trim_canonical)
qed

lemma Div_remainder_canonical:
  assumes "Div p q None = Some (quo, rem)" and "canonical p"
  shows "canonical rem"
proof -
  from assms(1) have b: "Div_body p q None = Some (quo, rem)"
    by (simp add: Div_def sanitize_def)
  then have "rem = p \<or> (\<exists>tF. trim tF = Some rem)"
    by (auto simp: Div_body_def Clone_nonneg split: Option.bind_splits if_splits loop_result.splits)
  with assms(2) show ?thesis by (auto dest: trim_canonical)
qed

section \<open>Termination of \<open>Gcd\<close>\<close>

lemma Div_3_2: "Div [3] [2] None = Some ([0], [3])"
  by code_simp

text \<open>
  Claim C9, at the input where it fails. The claim: \<open>Gcd\<close> terminates for every pair of
  polynomials, also when \<open>Div\<close> aborts and hands back the dividend. The code has no guard:
  for the constants 3 and 2 without modulus, \<open>Div\<close> subtracts once (Euclidean quotient 1),
  meets the ratio \<open>1/2\<close>, aborts and returns the remainder 3; \<open>Gcd\<close> then calls itself on
  \<open>(2, 3)\<close>, swaps the operands and is back at \<open>(3, 2)\<close>. The call never returns.
\<close>

theorem Gcd_does_not_return: "Gcd [3] [2] None = None"
proof (rule ccontr)
  assume "Gcd [3] [2] None \<noteq> None"
  then obtain y where y: "Gcd [3] [2] None = Some y" by auto
  have "\<not> (m = None \<and> (p = [3] \<and> q = [2] \<or> p = [2] \<and> q = [3]))"
    if ret: "Gcd p q m = Some y" for p q m y
  proof (rule Gcd.raw_induct
      [where P = "\<lambda>p q m y. \<not> (m = None \<and> (p = [3] \<and> q = [2] \<or> p = [2] \<and> q = [3]))",
       OF _ ret])
    fix G :: "Poly \<Rightarrow> Poly \<Rightarrow> int option \<Rightarrow> Poly option option" and p q m y
    assume IH: "\<And>p q m y. G p q m = Some y
                  \<Longrightarrow> \<not> (m = None \<and> (p = [3] \<and> q = [2] \<or> p = [2] \<and> q = [3]))"
      and body: "(if Compare p q < 0 then G q p m
                  else if isZero q then Some (Some p)
                  else case Div p q m of None \<Rightarrow> Some None
                       | Some (quo, rem) \<Rightarrow> G q rem m) = Some y"
    show "\<not> (m = None \<and> (p = [3] \<and> q = [2] \<or> p = [2] \<and> q = [3]))"
    proof
      assume "m = None \<and> (p = [3] \<and> q = [2] \<or> p = [2] \<and> q = [3])"
      then consider "p = [3]" "q = [2]" "m = None" | "p = [2]" "q = [3]" "m = None" by blast
      then show False
      proof cases
        case 1
        with body have "G [2] [3] None = Some y"
          by (simp add: Compare_def GetDegree_def big_Cmp_def isZero_def Div_3_2)
        from IH [OF this] show False by simp
      next
        case 2
        with body have "G [3] [2] None = Some y"
          by (simp add: Compare_def GetDegree_def big_Cmp_def)
        from IH [OF this] show False by simp
      qed
    qed
  qed
  from this [OF y] show False by simp
qed

section \<open>The shares lie on the polynomial\<close>

lemma eval_loop_total:
  "q \<noteq> 0 \<Longrightarrow> \<exists>v. eval_loop p x (Some q) y accx = Some v"
  by (induction p arbitrary: y accx) (auto simp: big_Mod_def Let_def)

lemma Eval_total: "q \<noteq> 0 \<Longrightarrow> \<exists>v. Eval p x (Some q) = Some v"
  by (simp add: Eval_def eval_loop_total)

lemma gen_points_shares:
  assumes "q \<noteq> 0"
  shows "\<exists>ps. gen_points p q rs = Some ps \<and> length ps = length rs
           \<and> (\<forall>i < length rs. Point_x (ps ! i) = rs ! i mod \<bar>q\<bar>)
           \<and> (\<forall>i < length rs. Eval p (rs ! i mod \<bar>q\<bar>) (Some q) = Some (Point_y (ps ! i)))"
proof (induction rs)
  case Nil
  show ?case by simp
next
  case (Cons r rs)
  then obtain ps where ps: "gen_points p q rs = Some ps" "length ps = length rs"
    and xs: "\<And>i. i < length rs \<Longrightarrow> Point_x (ps ! i) = rs ! i mod \<bar>q\<bar>"
    and ys: "\<And>i. i < length rs \<Longrightarrow> Eval p (rs ! i mod \<bar>q\<bar>) (Some q) = Some (Point_y (ps ! i))"
    by blast
  from Eval_total [OF assms] obtain v where v: "Eval p (r mod \<bar>q\<bar>) (Some q) = Some v"
    by blast
  let ?s = "\<lparr>Point_x = r mod \<bar>q\<bar>, Point_y = v\<rparr>"
  from assms ps v have "gen_points p q (r # rs) = Some (?s # ps)"
    by (simp add: big_Mod_def)
  moreover have "Point_x ((?s # ps) ! i) = (r # rs) ! i mod \<bar>q\<bar>"
    if "i < length (r # rs)" for i
    using that xs by (cases i) auto
  moreover have "Eval p ((r # rs) ! i mod \<bar>q\<bar>) (Some q) = Some (Point_y ((?s # ps) ! i))"
    if "i < length (r # rs)" for i
    using that v ys by (cases i) auto
  ultimately show ?case using ps(2) by auto
qed

text \<open>
  Claim C10. For all counts \<open>n, k \<ge> 0\<close> and every modulus \<open>q\<close> that passes the primality
  test (as every prime does; in particular \<open>q \<noteq> 0\<close>), whatever the random source
  returns, \<open>GenRandomShares\<close> returns \<open>n\<close> shares and a polynomial of \<open>k\<close> coefficients,
  that is of degree \<open>k - 1\<close> as \<open>GetDegree\<close> counts it; the x-coordinate of the \<open>i\<close>-th
  share is a value drawn from the random source, reduced modulo \<open>q\<close> (not the index
  \<open>i\<close>), and every share \<open>(x, y)\<close> satisfies \<open>Eval p x q = y\<close>.
\<close>

theorem GenRandomShares_shares:
  assumes "ProbablyPrime q" and "q \<noteq> 0" and "0 \<le> n" and "0 \<le> k"
  shows "\<exists>ps p. GenRandomShares ProbablyPrime RandomBigInt n k q = Some (ps, p)
           \<and> int (length ps) = n \<and> GetDegree p = k - 1
           \<and> (\<forall>i < length ps.
                 Point_x (ps ! i) = RandomBigInt (nat k + i) mod \<bar>q\<bar>
                 \<and> Eval p (Point_x (ps ! i)) (Some q) = Some (Point_y (ps ! i)))"
proof -
  let ?p = "map (\<lambda>a. a mod \<bar>q\<bar>) (map RandomBigInt [0..<nat k])"
  let ?rs = "map RandomBigInt [nat k..<nat k + nat n]"
  from gen_points_shares [OF assms(2), of ?p ?rs] obtain ps where
    ps: "gen_points ?p q ?rs = Some ps" "length ps = length ?rs"
    and xs: "\<And>i. i < length ?rs \<Longrightarrow> Point_x (ps ! i) = ?rs ! i mod \<bar>q\<bar>"
    and ys: "\<And>i. i < length ?rs \<Longrightarrow> Eval ?p (?rs ! i mod \<bar>q\<bar>) (Some q) = Some (Point_y (ps ! i))"
    by blast
  have "GenRandomShares ProbablyPrime RandomBigInt n k q = Some (ps, ?p)"
    using assms ps(1) by (simp add: GenRandomShares_def mod_coeffs_nonzero)
  moreover have "int (length ps) = n" using ps(2) assms(3) by simp
  moreover have "GetDegree ?p = k - 1" using assms(4) by (simp add: GetDegree_def)
  moreover have "Point_x (ps ! i) = RandomBigInt (nat k + i) mod \<bar>q\<bar>
                 \<and> Eval ?p (Point_x (ps ! i)) (Some q) = Some (Point_y (ps ! i))"
    if "i < length ps" for i
  proof -
    from that ps(2) have i: "i < length ?rs" by simp
    then have nth: "?rs ! i = RandomBigInt (nat k + i)" by simp
    from xs [OF i] ys [OF i] show ?thesis unfolding nth by simp
  qed
  ultimately show ?thesis by blast
qed

theorem GenRandomShares_shares_witness:
  "GenRandomShares (\<lambda>q. q = 7) (\<lambda>i. int i * 5 + 3) 2 3 7
     = Some ([\<lparr>Point_x = 4, Point_y = 5\<rparr>, \<lparr>Point_x = 2, Point_y = 1\<rparr>], [3, 1, 6])
   \<and> (\<exists>ps p. GenRandomShares (\<lambda>q. q = 7) (\<lambda>i. int i * 5 + 3) 2 3 7 = Some (ps, p)
           \<and> int (length ps) = 2 \<and> GetDegree p = 3 - 1
           \<and> (\<forall>i < length ps.
                 Point_x (ps ! i) = (int (nat 3 + i) * 5 + 3) mod \<bar>7\<bar>
                 \<and> Eval p (Point_x (ps ! i)) (Some 7) = Some (Point_y (ps ! i))))"
proof (intro conjI)
  show "GenRandomShares (\<lambda>q. q = 7) (\<lambda>i. int i * 5 + 3) 2 3 7
     = Some ([\<lparr>Point_x = 4, Point_y = 5\<rparr>, \<lparr>Point_x = 2, Point_y = 1\<rparr>], [3, 1, 6])"
    by code_simp
  show "\<exists>ps p. GenRandomShares (\<lambda>q. q = 7) (\<lambda>i. int i * 5 + 3) 2 3 7 = Some (ps, p)
           \<and> int (length ps) = 2 \<and> GetDegree p = 3 - 1
           \<and> (\<forall>i < length ps.
                 Point_x (ps ! i) = (int (nat 3 + i) * 5 + 3) mod \<bar>7\<bar>
                 \<and> Eval p (Point_x (ps ! i)) (Some 7) = Some (Point_y (ps ! i)))"
    by (rule GenRandomShares_shares [of "\<lambda>q. q = 7" 7 2 3 "\<lambda>i. int i * 5 + 3"]) simp_all
qed

section \<open>Inexact ratios abort the division\<close>

text \<open>The state \<open>(quo, t)\<close> of the loop of \<open>Div\<close> after \<open>n\<close> further iterations, when
  the loop runs that long (\<open>None\<close> when it ends or panics earlier).\<close>

fun div_iter :: "Poly \<Rightarrow> int option \<Rightarrow> nat \<Rightarrow> Poly \<times> Poly \<Rightarrow> (Poly \<times> Poly) option" where
  "div_iter q m 0 s = Some s"
| "div_iter q m (Suc n) s =
     (case div_step q m (fst s) (snd s) of
        Some (Next quo' t') \<Rightarrow> div_iter q m n (quo', t')
      | _ \<Rightarrow> None)"

lemma div_loop_div_iter:
  "div_iter q m n (quo, t) = Some (quo', t') \<Longrightarrow> div_loop q m quo t = div_loop q m quo' t'"
proof (induction n arbitrary: quo t)
  case 0
  then show ?case by simp
next
  case (Suc n)
  then obtain quo1 t1 where step: "div_step q m quo t = Some (Next quo1 t1)"
    and rest: "div_iter q m n (quo1, t1) = Some (quo', t')"
    by (auto split: option.splits step_result.splits)
  from step have "div_loop q m quo t = div_loop q m quo1 t1"
    by (subst div_loop.simps) simp
  with Suc.IH [OF rest] show ?case by simp
qed

lemma div_iter_lengths:
  "div_iter q m n (quo, t) = Some (quo', t') \<Longrightarrow>
   length quo' = length quo \<and> length t' \<le> length t"
proof (induction n arbitrary: quo t)
  case 0
  then show ?case by simp
next
  case (Suc n)
  then obtain quo1 t1 where step: "div_step q m quo t = Some (Next quo1 t1)"
    and rest: "div_iter q m n (quo1, t1) = Some (quo', t')"
    by (auto split: option.splits step_result.splits)
  from step have "length quo1 = length quo" "length t1 \<le> length t"
    using trim_length(2) by (auto elim!: div_step_Next) fastforce
  with Suc.IH [OF rest] show ?case by simp
qed

lemma div_step_Next_intro:
  assumes "q \<noteq> []" "length q \<le> length t" "\<not> isZero t"
    and "leading_ratio q m t = Some r" "r \<noteq> 0"
    and "length t - length q < length quo"
  shows "\<exists>t'. trim (sub_shifted t q (length t - length q) r m) = Some t'
            \<and> div_step q m quo t = Some (Next (quo[length t - length q := r]) t')"
proof -
  let ?rd = "GetDegree t - GetDegree q"
  let ?X = "sub_shifted t q (length t - length q) r m"
  from assms(1,2) have t: "t \<noteq> []" by auto
  from assms(1,2) have rd: "nat ?rd = length t - length q" "0 \<le> ?rd" "\<not> ?rd < 0"
    by (auto simp: GetDegree_def)
  from assms(4) have m0: "m \<noteq> Some 0" using leading_ratio_mod_zero by auto
  let ?u' = "replicate (nat ?rd) 0 @ map (\<lambda>a. reduce m (a * r)) q"
  have len: "length ?u' = length t" using assms(2) rd by simp
  have X: "map (\<lambda>i. reduce m (t ! i - ?u' ! i)) [0..<length t] = ?X"
    using assms(2) rd by (auto simp: sub_shifted_def nth_append intro!: nth_equalityI)
  from t have "?X \<noteq> []" by (simp add: sub_shifted_def)
  then obtain t' where t': "trim ?X = Some t'" by (auto simp: trim_def)
  have sub: "Sub t ?u' m = Some t'"
    by (simp only: Sub_same_length [OF len m0] X t')
  have "div_step q m quo t = Some (Next (quo[length t - length q := r]) t')"
    using assms(1,3,5,6) rd(2,3) t' sub trim_idem [OF t']
    by (simp add: div_step_def Let_def assms(4) Clone_nonneg scale_coeffs_shifted [OF m0]
                  big_Cmp_def rd(1))
  with t' show ?thesis by blast
qed

lemma div_loop_inexact_aborts:
  assumes "q \<noteq> []" "last q \<noteq> 0" "length q \<le> length t" "\<not> isZero t"
    and "length t - length q < length quo"
    and "\<not> last q dvd last t"
  shows "div_loop q None quo t = Some Aborted"
proof -
  from assms(1,3) have t: "t \<noteq> []" by auto
  define r where "r = sgn (last q) * (last t div \<bar>last q\<bar>)"
  have r: "leading_ratio q None t = Some r"
    using assms(1,2) t by (simp add: leading_ratio_def nat_GetDegree big_Div_def r_def)
  have nex: "\<not> (GetDegree t - GetDegree q < 0 \<or> isZero t)"
    using assms(3,4) by (simp add: GetDegree_def)
  show ?thesis
  proof (cases "r = 0")
    case True
    with r nex assms(1) have "div_step q None quo t = Some Abort"
      by (simp add: div_step_def Let_def big_Cmp_def)
    then show ?thesis by (subst div_loop.simps) simp
  next
    case False
    let ?X = "sub_shifted t q (length t - length q) r None"
    let ?quo' = "quo[length t - length q := r]"
    from div_step_Next_intro [OF assms(1,3,4) r False assms(5)]
    obtain t' where t': "trim ?X = Some t'"
      and step: "div_step q None quo t = Some (Next ?quo' t')" by blast
    have lastX: "last ?X = last t mod \<bar>last q\<bar>"
      by (simp add: sub_shifted_last [OF assms(1,3)] reduce_def r_def euclid_remainder)
    from assms(6) have nz: "last t mod \<bar>last q\<bar> \<noteq> 0"
      by (simp add: dvd_eq_mod_eq_0 [symmetric])
    from t have Xne: "?X \<noteq> []" by (simp add: sub_shifted_def)
    with lastX nz have "canonical ?X" by (simp add: canonical_def)
    from trim_of_canonical [OF this] t' have eq: "t' = ?X" by simp
    have small: "last ?X div \<bar>last q\<bar> = 0"
      using assms(2) by (simp add: lastX div_pos_pos_trivial)
    have nzero: "\<not> isZero ?X"
      using lastX nz Xne by (auto simp: isZero_iff)
    have "leading_ratio q None ?X = Some 0"
      using assms(1,2) Xne small by (simp add: leading_ratio_def nat_GetDegree big_Div_def)
    with nzero assms(1,3) have "div_step q None ?quo' ?X = Some Abort"
      by (simp add: div_step_def Let_def big_Cmp_def GetDegree_def)
    then have "div_loop q None ?quo' ?X = Some Aborted"
      by (subst div_loop.simps) simp
    with step eq show ?thesis by (subst div_loop.simps) simp
  qed
qed

text \<open>
  Claim C2. Without a modulus, for a canonical nonzero divisor \<open>q\<close> and a dividend \<open>p\<close>
  of at least its degree: if the loop of \<open>Div\<close> reaches, after some number \<open>n\<close> of
  iterations, a running remainder \<open>t\<close> with which it goes on, and the leading coefficient
  of \<open>q\<close> does not divide the leading coefficient of \<open>t\<close> (the true ratio is not an
  integer), then \<open>Div\<close> returns the zero polynomial as quotient and \<open>p\<close> itself as
  remainder: whatever the quotient array held is dropped. All coefficients are integers
  by the type of \<open>Poly\<close>.
\<close>

theorem Div_inexact_aborts:
  assumes "canonical q" and "\<not> isZero q" and "\<not> GetDegree p < GetDegree q"
    and "div_iter q None n (replicate (nat (GetDegree p - GetDegree q + 1)) 0, p) = Some (quo, t)"
    and "\<not> (GetDegree t - GetDegree q < 0 \<or> isZero t)"
    and "\<not> last q dvd last t"
  shows "Div p q None = Some ([0], p)"
proof -
  from assms(1,2) have q: "q \<noteq> []" "last q \<noteq> 0"
    by (cases q; auto simp: canonical_def isZero_iff)+
  from assms(5) have le: "length q \<le> length t" and nz: "\<not> isZero t"
    by (auto simp: GetDegree_def)
  let ?quo0 = "replicate (nat (GetDegree p - GetDegree q + 1)) (0::int)"
  from div_iter_lengths [OF assms(4)] have len: "length quo = length ?quo0" "length t \<le> length p"
    by auto
  from assms(3) q(1) have "length p - length q < length ?quo0"
    by (auto simp: GetDegree_def)
  with len have idx: "length t - length q < length quo" by simp
  have "div_loop q None ?quo0 p = div_loop q None quo t"
    using assms(4) by (rule div_loop_div_iter)
  also have "\<dots> = Some Aborted"
    using q le nz idx assms(6) by (rule div_loop_inexact_aborts)
  finally show ?thesis
    using assms(2,3)
    by (simp add: Div_def Div_body_def sanitize_def Clone_nonneg NewPolyInts_def trim_def GetDegree_def)
qed

theorem Div_inexact_aborts_witness:
  "div_iter [1, 2] None 1 (replicate (nat (GetDegree [1, 4, 2] - GetDegree [1, 2] + 1)) 0, [1, 4, 2])
     = Some ([0, 1], [1, 3])
   \<and> \<not> (2::int) dvd 3
   \<and> Div [1, 4, 2] [1, 2] None = Some ([0], [1, 4, 2])"
proof -
  have h1: "canonical [1, 2]" by code_simp
  have h2: "\<not> isZero [1, 2]" by code_simp
  have h3: "\<not> GetDegree [1, 4, 2] < GetDegree [1, 2]" by code_simp
  have h4: "div_iter [1, 2] None 1
              (replicate (nat (GetDegree [1, 4, 2] - GetDegree [1, 2] + 1)) 0, [1, 4, 2])
            = Some ([0, 1], [1, 3])" by code_simp
  have h5: "\<not> (GetDegree [1, 3] - GetDegree [1, 2] < 0 \<or> isZero [1, 3])" by code_simp
  have h6: "\<not> last [1, 2] dvd last [1, 3 :: int]" by simp
  from Div_inexact_aborts [OF h1 h2 h3 h4 h5 h6] h4 show ?thesis by simp
qed

section \<open>The postcondition of the division\<close>

text \<open>The coefficient of \<open>x^k\<close> of a polynomial, and of the product of two polynomials
  (the convolution of their coefficients).\<close>

definition coeff :: "Poly \<Rightarrow> nat \<Rightarrow> int" where
  "coeff p k = (if k < length p then p ! k else 0)"

definition conv :: "Poly \<Rightarrow> Poly \<Rightarrow> nat \<Rightarrow> int" where
  "conv a b k = (\<Sum>i\<leftarrow>[0..<Suc k]. coeff a i * coeff b (k - i))"

lemma conv_sum: "conv a b k = (\<Sum>i\<le>k. coeff a i * coeff b (k - i))"
proof -
  have "set [0..<Suc k] = {..k}" by auto
  then show ?thesis
    unfolding conv_def by (simp only: interv_sum_list_conv_sum_set_nat)
qed

lemma coeff_trim:
  assumes "trim p = Some p'"
  shows "coeff p' k = coeff p k"
proof (cases "k < length p'")
  case True
  with trim_length(2) [OF assms] trim_nth [OF assms True] show ?thesis
    by (simp add: coeff_def)
next
  case False
  then have "length p' \<le> k" by simp
  with trim_dropped_zero [OF assms this] show ?thesis
    by (simp add: coeff_def)
qed

lemma conv_coeff_cong:
  assumes "\<And>i. coeff a i = coeff a' i"
  shows "conv a b k = conv a' b k"
  by (simp add: conv_sum assms)

lemma conv_trim: "trim a = Some a' \<Longrightarrow> conv a' b k = conv a b k"
  by (rule conv_coeff_cong) (rule coeff_trim)

lemma coeff_replicate_zero [simp]: "coeff (replicate n 0) k = 0"
  by (simp add: coeff_def)

lemma conv_replicate_zero [simp]: "conv (replicate n 0) b k = 0"
  by (simp add: conv_sum)

lemma coeff_update:
  "rd < length a \<Longrightarrow> coeff (a[rd := r]) i = (if i = rd then r else coeff a i)"
  by (simp add: coeff_def)

lemma conv_update:
  assumes "rd < length a" "coeff a rd = 0"
  shows "conv (a[rd := r]) b k = conv a b k + (if rd \<le> k then r * coeff b (k - rd) else 0)"
proof -
  have "conv (a[rd := r]) b k
          = (\<Sum>i\<le>k. coeff a i * coeff b (k - i) + (if rd = i then r * coeff b (k - i) else 0))"
    unfolding conv_sum
    by (rule sum.cong) (auto simp: coeff_update [OF assms(1)] assms(2))
  also have "\<dots> = conv a b k + (\<Sum>i\<le>k. if rd = i then r * coeff b (k - i) else 0)"
    by (simp add: sum.distrib conv_sum)
  also have "(\<Sum>i\<le>k. if rd = i then r * coeff b (k - i) else 0)
               = (if rd \<le> k then r * coeff b (k - rd) else 0)"
    by (simp add: sum.delta)
  finally show ?thesis .
qed

lemma reduce_idem [simp]: "reduce m (reduce m a) = reduce m a"
  by (simp add: reduce_def split: option.splits)

lemma reduce_add_left: "reduce m (reduce m a + b) = reduce m (a + b)"
  by (simp add: reduce_def mod_add_left_eq split: option.splits)

lemma reduce_add_right: "reduce m (a + reduce m b) = reduce m (a + b)"
  by (simp add: reduce_def mod_add_right_eq split: option.splits)

lemma reduce_diff_right: "reduce m (a - reduce m b) = reduce m (a - b)"
  by (simp add: reduce_def mod_diff_right_eq split: option.splits)

lemma reduce_mult_right: "reduce m (a * reduce m b) = reduce m (a * b)"
  by (simp add: reduce_def mod_mult_right_eq split: option.splits)

lemma reduce_sum: "reduce m (\<Sum>i\<in>A. reduce m (f i)) = reduce m (\<Sum>i\<in>A. f i)"
  by (simp add: reduce_def mod_sum_eq split: option.splits)

lemma coeff_map_reduce: "coeff (map (reduce m) b) k = reduce m (coeff b k)"
  by (simp add: coeff_def)

lemma reduce_conv_reduced:
  "reduce m (conv a (map (reduce m) b) k) = reduce m (conv a b k)"
proof -
  have "reduce m (conv a (map (reduce m) b) k)
          = reduce m (\<Sum>i\<le>k. reduce m (coeff a i * reduce m (coeff b (k - i))))"
    by (simp only: conv_sum coeff_map_reduce reduce_sum)
  also have "\<dots> = reduce m (conv a b k)"
    by (simp only: reduce_mult_right reduce_sum conv_sum)
  finally show ?thesis .
qed

lemma coeff_sub_shifted:
  assumes "q \<noteq> []" "length q \<le> length t"
  shows "coeff (sub_shifted t q (length t - length q) r m) k
           = reduce m (coeff t k
                        - (if length t - length q \<le> k then r * coeff q (k - (length t - length q)) else 0))"
proof (cases "k < length t")
  case True
  show ?thesis
  proof (cases "k < length t - length q")
    case True
    with \<open>k < length t\<close> show ?thesis by (simp add: coeff_def sub_shifted_def)
  next
    case False
    with \<open>k < length t\<close> assms have "k - (length t - length q) < length q" by auto
    with False \<open>k < length t\<close> show ?thesis
      by (simp add: coeff_def sub_shifted_def reduce_diff_right mult.commute)
  qed
next
  case False
  with assms have "\<not> k - (length t - length q) < length q" by auto
  with False show ?thesis by (simp add: coeff_def sub_shifted_def)
qed

lemma div_step_preserves_sum:
  assumes S: "\<And>k. reduce m (conv quo q k + coeff t k) = reduce m (c k)"
    and J: "coeff quo (length t - length q) = 0"
    and step: "div_step q m quo t = Some (Next quo1 t1)"
  shows "reduce m (conv quo1 q k + coeff t1 k) = reduce m (c k)"
proof -
  from step obtain r where ne: "q \<noteq> []" and le: "length q \<le> length t"
    and idx: "length t - length q < length quo"
    and quo1: "quo1 = quo[length t - length q := r]"
    and tr: "trim (sub_shifted t q (length t - length q) r m) = Some t1"
    by (rule div_step_Next)
  let ?rd = "length t - length q"
  let ?d = "if ?rd \<le> k then r * coeff q (k - ?rd) else 0"
  have "reduce m (conv quo1 q k + coeff t1 k)
          = reduce m ((conv quo q k + ?d) + reduce m (coeff t k - ?d))"
    by (simp only: quo1 conv_update [OF idx J] coeff_trim [OF tr] coeff_sub_shifted [OF ne le])
  also have "\<dots> = reduce m ((conv quo q k + ?d) + (coeff t k - ?d))"
    by (rule reduce_add_right)
  also have "(conv quo q k + ?d) + (coeff t k - ?d) = conv quo q k + coeff t k" by simp
  finally show ?thesis by (simp only: S)
qed

lemma div_step_preserves_zeros:
  assumes J: "\<forall>j \<le> length t - length q. coeff quo j = 0"
    and step: "div_step q m quo t = Some (Next quo1 t1)"
    and shorter: "length t1 < length t" and le1: "length q \<le> length t1"
  shows "\<forall>j \<le> length t1 - length q. coeff quo1 j = 0"
proof -
  from step obtain r where idx: "length t - length q < length quo"
    and quo1: "quo1 = quo[length t - length q := r]"
    by (rule div_step_Next)
  show ?thesis
  proof (intro allI impI)
    fix j assume "j \<le> length t1 - length q"
    with shorter le1 have "j < length t - length q" by simp
    with J show "coeff quo1 j = 0"
      by (simp add: quo1 coeff_update [OF idx])
  qed
qed

lemma div_loop_invariant:
  assumes "div_loop q m quo t = Some (Finished quoF tF)"
    and "\<And>k. reduce m (conv quo q k + coeff t k) = reduce m (c k)"
    and "length q \<le> length t \<longrightarrow> (\<forall>j \<le> length t - length q. coeff quo j = 0)"
  shows "(\<forall>k. reduce m (conv quoF q k + coeff tF k) = reduce m (c k))
         \<and> (GetDegree tF - GetDegree q < 0 \<or> isZero tF)"
  using assms
proof (induction q m quo t rule: div_loop.induct)
  case (1 q m quo t)
  note S = "1.prems"(2) and J = "1.prems"(3)
  from "1.prems"(1) consider
      (exit) "div_step q m quo t = Some Exit" "quoF = quo" "tF = t"
    | (nxt) quo1 t1 where "div_step q m quo t = Some (Next quo1 t1)"
        "div_loop q m quo1 t1 = Some (Finished quoF tF)"
    by (subst (asm) div_loop.simps) (auto split: option.splits step_result.splits)
  then show ?case
  proof cases
    case exit
    from exit(1) have "GetDegree t - GetDegree q < 0 \<or> isZero t"
      by (auto simp: div_step_def Let_def split: if_splits Option.bind_splits)
    with exit S show ?thesis by simp
  next
    case nxt
    from nxt(1) have le: "length q \<le> length t" by (rule div_step_Next)
    with J have J': "\<forall>j \<le> length t - length q. coeff quo j = 0" by simp
    then have J0: "coeff quo (length t - length q) = 0" by simp
    have S1: "reduce m (conv quo1 q k + coeff t1 k) = reduce m (c k)" for k
      using S J0 nxt(1) by (rule div_step_preserves_sum)
    from div_step_decreases [OF nxt(1)] consider
        (shorter) "length t1 < length t"
      | (same) "div_step q m quo1 t1 = Some Exit \<or> div_step q m quo1 t1 = Some Abort"
      by blast
    then show ?thesis
    proof cases
      case shorter
      have "length q \<le> length t1 \<longrightarrow> (\<forall>j \<le> length t1 - length q. coeff quo1 j = 0)"
        using div_step_preserves_zeros [OF J' nxt(1) shorter] by blast
      with "1.IH" [OF nxt(1) refl nxt(2) S1] show ?thesis by simp
    next
      case same
      with nxt(2) have ex: "div_step q m quo1 t1 = Some Exit" "quoF = quo1" "tF = t1"
        by (subst (asm) div_loop.simps; auto)+
      from ex(1) have "GetDegree t1 - GetDegree q < 0 \<or> isZero t1"
        by (auto simp: div_step_def Let_def split: if_splits Option.bind_splits)
      with ex S1 show ?thesis by simp
    qed
  qed
qed

text \<open>\<open>Div_aborts\<close>: the call \<open>Div p q m\<close> enters its loop and leaves it through the
  zero-ratio \<open>return\<close> (quotient 0, remainder the dividend).\<close>

definition Div_aborts :: "Poly \<Rightarrow> Poly \<Rightarrow> int option \<Rightarrow> bool" where
  "Div_aborts p q m =
     (case sanitize p m of
        None \<Rightarrow> False
      | Some p' \<Rightarrow>
          (case sanitize q m of
             None \<Rightarrow> False
           | Some q' \<Rightarrow>
               \<not> (GetDegree p' < GetDegree q' \<or> isZero q')
               \<and> div_loop q' m (replicate (nat (GetDegree p' - GetDegree q' + 1)) 0) p'
                   = Some Aborted))"

lemma Div_mod_zero: "Div p q (Some 0) = None"
proof (cases "p = [] \<and> q = []")
  case True
  have "div_step [] (Some 0) [0] [] = None"
    by (simp add: div_step_def GetDegree_def isZero_def)
  then have "div_loop [] (Some 0) [0] [] = None"
    by (subst div_loop.simps) simp
  with True show ?thesis
    by (simp add: Div_def Div_body_def sanitize_def GetDegree_def isZero_def Clone_nonneg)
next
  case False
  then show ?thesis
    by (cases p; cases q) (auto simp: Div_def Div_body_def sanitize_def big_Mod_def)
qed

lemma coeff_single_zero [simp]: "coeff [0] k = 0"
  by (simp add: coeff_def)

lemma conv_single_zero [simp]: "conv [0] b k = 0"
  by (simp add: conv_sum)

text \<open>
  Claim C1, as amended. For all \<open>p\<close>, \<open>q\<close> and every modulus \<open>m\<close> (prime or not) or no
  modulus: whenever \<open>Div p q m\<close> returns, not through its abort path, and \<open>q\<close> is not the
  zero polynomial (modulo \<open>m\<close>), the results satisfy \<open>quo * q + rem = p\<close>, coefficient by
  coefficient and modulo \<open>m\<close> when a modulus is given, and \<open>rem\<close> is the zero polynomial
  or of degree less than \<open>deg q\<close>. The abort path is characterised further down:
  without a modulus and for a canonical \<open>p\<close> it is taken only at a ratio that is not
  exact (lemma \<open>Div_aborts_inexact\<close>), so the statement covers every division whose
  ratios are all exact; with a modulus under which the leading coefficient of \<open>q\<close> is
  invertible and that of \<open>p\<close> is not 0 it is never taken (lemma
  \<open>Div_mod_never_aborts\<close>); and \<open>Div\<close> returns for every nonempty \<open>p\<close> and canonical
  \<open>q\<close> (lemma \<open>Div_returns\<close>).
\<close>

theorem Div_postcondition:
  assumes ret: "Div p q m = Some (quo, rem)"
    and nab: "\<not> Div_aborts p q m"
    and qnz: "\<not> isZero (map (reduce m) q)"
  shows "(\<forall>k. reduce m (conv quo q k + coeff rem k) = reduce m (coeff p k))
         \<and> (isZero rem \<or> GetDegree rem < GetDegree q)"
proof -
  let ?p = "map (reduce m) p" and ?q = "map (reduce m) q"
  let ?quo0 = "replicate (nat (GetDegree ?p - GetDegree ?q + 1)) (0::int)"
  from ret have m0: "m \<noteq> Some 0" using Div_mod_zero by auto
  note san = sanitize_Some [OF m0]
  have degq: "GetDegree ?q = GetDegree q" by (simp add: GetDegree_def)
  show ?thesis
  proof (cases "GetDegree ?p < GetDegree ?q")
    case True
    with ret have "quo = [0]" "rem = ?p"
      by (auto simp: Div_def Div_body_def san NewPolyInts_def trim_def GetDegree_def Clone_nonneg)
    with True show ?thesis
      by (simp add: coeff_map_reduce GetDegree_def)
  next
    case False
    with ret qnz obtain res where loop: "div_loop ?q m ?quo0 ?p = Some res"
      by (auto simp: Div_def Div_body_def san Clone_nonneg split: Option.bind_splits)
    from nab False qnz loop have "res \<noteq> Aborted"
      by (auto simp: Div_aborts_def san)
    then obtain quoF tF where res: "res = Finished quoF tF" by (cases res) auto
    with ret False qnz loop have tr: "trim quoF = Some quo" "trim tF = Some rem"
      by (auto simp: Div_def Div_body_def san Clone_nonneg split: Option.bind_splits)
    have "(\<forall>k. reduce m (conv quoF ?q k + coeff tF k) = reduce m (coeff ?p k))
          \<and> (GetDegree tF - GetDegree ?q < 0 \<or> isZero tF)"
      using loop [unfolded res] by (rule div_loop_invariant) simp_all
    then have S: "\<And>k. reduce m (conv quoF ?q k + coeff tF k) = reduce m (coeff ?p k)"
      and ex: "GetDegree tF - GetDegree ?q < 0 \<or> isZero tF" by blast+
    have "reduce m (conv quo q k + coeff rem k) = reduce m (coeff p k)" for k
    proof -
      have "reduce m (conv quo q k + coeff rem k)
              = reduce m (reduce m (conv quo q k) + coeff rem k)"
        by (simp only: reduce_add_left)
      also have "reduce m (conv quo q k) = reduce m (conv quoF ?q k)"
        by (simp only: reduce_conv_reduced conv_trim [OF tr(1)])
      also have "reduce m (reduce m (conv quoF ?q k) + coeff rem k)
                   = reduce m (conv quoF ?q k + coeff tF k)"
        by (simp only: reduce_add_left coeff_trim [OF tr(2)])
      also have "\<dots> = reduce m (coeff p k)"
        by (simp only: S coeff_map_reduce reduce_idem)
      finally show ?thesis .
    qed
    moreover have "isZero rem \<or> GetDegree rem < GetDegree q"
    proof (cases "isZero tF")
      case True
      then have "tF = [0]" by (simp add: isZero_iff)
      with tr(2) have "rem = [0]" by (simp add: trim_def GetDegree_def)
      then show ?thesis by (simp add: isZero_iff)
    next
      case False
      with ex have "GetDegree tF < GetDegree q" by (simp add: degq)
      with trim_length(2) [OF tr(2)] show ?thesis by (simp add: GetDegree_def)
    qed
    ultimately show ?thesis by blast
  qed
qed

theorem Div_postcondition_witness:
  "Div [1, 2, 0, 3] [1, 1] (Some 7) = Some ([5, 4, 3], [3])
   \<and> \<not> Div_aborts [1, 2, 0, 3] [1, 1] (Some 7)
   \<and> (\<forall>k. reduce (Some 7) (conv [5, 4, 3] [1, 1] k + coeff [3] k)
            = reduce (Some 7) (coeff [1, 2, 0, 3] k))
   \<and> (isZero [3] \<or> GetDegree [3] < GetDegree [1, 1])"
proof -
  have h1: "Div [1, 2, 0, 3] [1, 1] (Some 7) = Some ([5, 4, 3], [3])" by code_simp
  have h2: "\<not> Div_aborts [1, 2, 0, 3] [1, 1] (Some 7)" by code_simp
  have h3: "\<not> isZero (map (reduce (Some 7)) [1, 1])" by code_simp
  from Div_postcondition [OF h1 h2 h3] h1 h2 show ?thesis by blast
qed

text \<open>
  Claim C1 as stated, for every \<open>q\<close>, fails at the zero polynomial: \<open>Div\<close> of the constant 1
  by 0 modulo 7 completes through the early return, not the abort path, with the remainder
  1, which is neither zero nor of degree less than \<open>deg q = 0\<close>.
\<close>

theorem Div_by_zero_counterexample:
  "Div [1] [0] (Some 7) = Some ([0], [1]) \<and> \<not> Div_aborts [1] [0] (Some 7)
   \<and> \<not> (isZero [1] \<or> GetDegree [1] < GetDegree [0])"
  by code_simp

section \<open>When the division aborts, and that it returns\<close>

lemma div_loop_Aborted_iter:
  "div_loop q m quo t = Some Aborted \<Longrightarrow>
   \<exists>n quo' t'. div_iter q m n (quo, t) = Some (quo', t') \<and> div_step q m quo' t' = Some Abort"
proof (induction q m quo t rule: div_loop.induct)
  case (1 q m quo t)
  from "1.prems" consider
      (abort) "div_step q m quo t = Some Abort"
    | (nxt) quo1 t1 where "div_step q m quo t = Some (Next quo1 t1)"
        "div_loop q m quo1 t1 = Some Aborted"
    by (subst (asm) div_loop.simps) (auto split: option.splits step_result.splits)
  then show ?case
  proof cases
    case abort
    then have "div_iter q m 0 (quo, t) = Some (quo, t) \<and> div_step q m quo t = Some Abort"
      by simp
    then show ?thesis by blast
  next
    case nxt
    from "1.IH" [OF nxt(1) refl nxt(2)] obtain n quo' t' where
      it: "div_iter q m n (quo1, t1) = Some (quo', t')" and ab: "div_step q m quo' t' = Some Abort"
      by blast
    from it nxt(1) have "div_iter q m (Suc n) (quo, t) = Some (quo', t')" by simp
    with ab show ?thesis by blast
  qed
qed

lemma div_iter_canonical:
  "div_iter q m n (quo, t) = Some (quo', t') \<Longrightarrow> canonical t \<Longrightarrow> canonical t'"
proof (induction n arbitrary: quo t)
  case 0
  then show ?case by simp
next
  case (Suc n)
  then obtain quo1 t1 where step: "div_step q m quo t = Some (Next quo1 t1)"
    and rest: "div_iter q m n (quo1, t1) = Some (quo', t')"
    by (auto split: option.splits step_result.splits)
  from step have "canonical t1"
    by (rule div_step_Next) (rule trim_canonical)
  with Suc.IH [OF rest] show ?case .
qed

lemma div_step_Abort_inexact:
  assumes "div_step q None quo t = Some Abort" and "canonical t"
  shows "\<not> (GetDegree t - GetDegree q < 0 \<or> isZero t)" and "\<not> last q dvd last t"
proof -
  from assms(1) show nex: "\<not> (GetDegree t - GetDegree q < 0 \<or> isZero t)"
    by (auto simp: div_step_def Let_def split: if_splits)
  from assms(1) nex have q: "q \<noteq> []" and r: "leading_ratio q None t = Some 0"
    by (auto simp: div_step_def Let_def big_Cmp_def split: if_splits Option.bind_splits)
  from assms(2) have t: "t \<noteq> []" by (simp add: canonical_def)
  from nex assms(2) t have a: "last t \<noteq> 0"
    by (cases t rule: rev_cases) (auto simp: canonical_def isZero_iff)
  from leading_ratio_None [OF r q t] have b: "last q \<noteq> 0"
    and "sgn (last q) * (last t div \<bar>last q\<bar>) = 0" by auto
  then have "last t div \<bar>last q\<bar> = 0" by (simp add: sgn_eq_0_iff)
  then have small: "0 \<le> last t" "last t < \<bar>last q\<bar>"
    using b by (auto simp: div_eq_0_iff zdiv_eq_0_iff split: if_splits)
  show "\<not> last q dvd last t"
  proof
    assume "last q dvd last t"
    then have "\<bar>last q\<bar> dvd last t" by simp
    with small a show False
      using zdvd_imp_le [of "\<bar>last q\<bar>" "last t"] by simp
  qed
qed

text \<open>Without a modulus and for a canonical dividend, the abort path is taken only at an
  iteration whose ratio of leading coefficients is not an integer.\<close>

lemma Div_aborts_inexact:
  assumes "Div_aborts p q None" and "canonical p"
  shows "\<exists>n quo t.
           div_iter q None n (replicate (nat (GetDegree p - GetDegree q + 1)) 0, p) = Some (quo, t)
           \<and> \<not> (GetDegree t - GetDegree q < 0 \<or> isZero t)
           \<and> \<not> last q dvd last t"
proof -
  from assms(1) have
    "div_loop q None (replicate (nat (GetDegree p - GetDegree q + 1)) 0) p = Some Aborted"
    by (simp add: Div_aborts_def sanitize_def)
  from div_loop_Aborted_iter [OF this] obtain n quo t where
    it: "div_iter q None n (replicate (nat (GetDegree p - GetDegree q + 1)) 0, p) = Some (quo, t)"
    and ab: "div_step q None quo t = Some Abort" by blast
  from div_iter_canonical [OF it assms(2)] have "canonical t" .
  from div_step_Abort_inexact [OF ab this] it show ?thesis by blast
qed

lemma leading_ratio_zero_mod:
  assumes r: "leading_ratio q (Some mv) t = Some 0" and ne: "q \<noteq> []" "t \<noteq> []"
    and b: "0 \<le> last q" and cop: "gcd (last q) \<bar>mv\<bar> = 1"
  shows "last t mod \<bar>mv\<bar> = 0"
proof -
  from r ne obtain r0 where r0: "big_ModInverse 0 (last q) mv = Some r0"
    and z: "0 = (r0 * last t) mod \<bar>mv\<bar>" and mv: "mv \<noteq> 0"
    by (rule leading_ratio_SomeD)
  from r0 b cop have r0': "r0 = fst (bezw (nat (last q)) (nat \<bar>mv\<bar>)) mod \<bar>mv\<bar>"
    by (simp add: big_ModInverse_def Let_def)
  have inv: "(r0 * last q) mod \<bar>mv\<bar> = 1 mod \<bar>mv\<bar>"
    using bezw_inverse [OF cop b] by (simp add: r0' mod_mult_left_eq)
  have "last t mod \<bar>mv\<bar> = (1 * last t) mod \<bar>mv\<bar>" by simp
  also have "\<dots> = ((r0 * last q) mod \<bar>mv\<bar> * last t) mod \<bar>mv\<bar>"
    unfolding inv by (simp only: mod_mult_left_eq)
  also have "\<dots> = ((r0 * last q) * last t) mod \<bar>mv\<bar>"
    by (simp only: mod_mult_left_eq)
  also have "(r0 * last q) * last t = last q * (r0 * last t)" by (simp only: ac_simps)
  also have "(last q * (r0 * last t)) mod \<bar>mv\<bar> = (last q * ((r0 * last t) mod \<bar>mv\<bar>)) mod \<bar>mv\<bar>"
    by (simp only: mod_mult_right_eq)
  also have "\<dots> = 0" unfolding z [symmetric] by simp
  finally show ?thesis .
qed

text \<open>The running remainder under a modulus is zero or has a leading coefficient that is
  not 0 modulo \<open>m\<close>.\<close>

definition leading_unit :: "int \<Rightarrow> Poly \<Rightarrow> bool" where
  "leading_unit mv t = (t \<noteq> [] \<and> \<not> (\<not> isZero t \<and> last t mod \<bar>mv\<bar> = 0))"

lemma div_step_leading_unit:
  assumes "div_step q (Some mv) quo t = Some (Next quo1 t1)"
  shows "leading_unit mv t1"
proof -
  from assms obtain r where ne: "q \<noteq> []" and le: "length q \<le> length t"
    and tr: "trim (sub_shifted t q (length t - length q) r (Some mv)) = Some t1"
    and mv: "Some mv \<noteq> Some 0"
    by (rule div_step_Next)
  let ?X = "sub_shifted t q (length t - length q) r (Some mv)"
  have can: "canonical t1" using tr by (rule trim_canonical)
  then have t1: "t1 \<noteq> []" by (simp add: canonical_def)
  have "last t1 mod \<bar>mv\<bar> \<noteq> 0" if nz: "\<not> isZero t1"
  proof -
    from can nz t1 have l: "last t1 \<noteq> 0"
      by (cases t1 rule: rev_cases) (auto simp: canonical_def isZero_iff)
    have "last t1 = t1 ! (length t1 - 1)" using t1 by (simp add: last_conv_nth)
    also have "\<dots> = ?X ! (length t1 - 1)" using t1 by (intro trim_nth [OF tr]) simp
    finally have eq: "last t1 = ?X ! (length t1 - 1)" .
    have "length t1 - 1 < length t"
      using trim_length(2) [OF tr] t1 by (cases t1) auto
    then have "?X ! (length t1 - 1) mod \<bar>mv\<bar> = ?X ! (length t1 - 1)"
      using mv by (simp add: sub_shifted_def reduce_def)
    with eq l show ?thesis by simp
  qed
  with t1 show ?thesis by (auto simp: leading_unit_def)
qed

lemma div_iter_leading_unit:
  "div_iter q (Some mv) n (quo, t) = Some (quo', t') \<Longrightarrow> leading_unit mv t
   \<Longrightarrow> leading_unit mv t'"
proof (induction n arbitrary: quo t)
  case 0
  then show ?case by simp
next
  case (Suc n)
  then obtain quo1 t1 where step: "div_step q (Some mv) quo t = Some (Next quo1 t1)"
    and rest: "div_iter q (Some mv) n (quo1, t1) = Some (quo', t')"
    by (auto split: option.splits step_result.splits)
  from Suc.IH [OF rest div_step_leading_unit [OF step]] show ?case .
qed

text \<open>With a modulus under which the leading coefficient of \<open>q\<close> is invertible (for a
  prime modulus: not divisible by it) and the leading coefficient of \<open>p\<close> is not 0, the
  division never takes the abort path.\<close>

lemma Div_mod_never_aborts:
  assumes "p \<noteq> []" and "q \<noteq> []" and "mv \<noteq> 0"
    and "last p mod \<bar>mv\<bar> \<noteq> 0" and "gcd (last q mod \<bar>mv\<bar>) \<bar>mv\<bar> = 1"
  shows "\<not> Div_aborts p q (Some mv)"
proof
  assume ab: "Div_aborts p q (Some mv)"
  let ?p = "map (reduce (Some mv)) p" and ?q = "map (reduce (Some mv)) q"
  from assms(3) have m0: "Some mv \<noteq> Some 0" by simp
  from ab have "div_loop ?q (Some mv) (replicate (nat (GetDegree ?p - GetDegree ?q + 1)) 0) ?p
                  = Some Aborted"
    by (simp add: Div_aborts_def sanitize_Some [OF m0])
  from div_loop_Aborted_iter [OF this] obtain n quo t where
    it: "div_iter ?q (Some mv) n (replicate (nat (GetDegree ?p - GetDegree ?q + 1)) 0, ?p)
           = Some (quo, t)"
    and st: "div_step ?q (Some mv) quo t = Some Abort" by blast
  have lastp: "last ?p = last p mod \<bar>mv\<bar>" and lastq: "last ?q = last q mod \<bar>mv\<bar>"
    using assms(1,2) by (simp_all add: last_map reduce_def)
  from assms(1,3,4) have "leading_unit mv ?p"
    by (simp add: leading_unit_def lastp)
  from div_iter_leading_unit [OF it this] have lu: "leading_unit mv t" .
  from st have nex: "\<not> (GetDegree t - GetDegree ?q < 0 \<or> isZero t)"
    by (auto simp: div_step_def Let_def split: if_splits)
  from st nex have r: "leading_ratio ?q (Some mv) t = Some 0"
    by (auto simp: div_step_def Let_def big_Cmp_def split: if_splits Option.bind_splits)
  from lu have t: "t \<noteq> []" by (simp add: leading_unit_def)
  from assms(2) have q: "?q \<noteq> []" by simp
  have "0 \<le> last ?q" using assms(3) by (simp add: lastq)
  from leading_ratio_zero_mod [OF r q t this] assms(5)
  have "last t mod \<bar>mv\<bar> = 0" by (simp add: lastq)
  with lu nex show False by (simp add: leading_unit_def)
qed

lemma leading_ratio_total:
  assumes "q \<noteq> []" "t \<noteq> []" "m \<noteq> Some 0" "\<not> (m = None \<and> last q = 0)"
  shows "\<exists>r. leading_ratio q m t = Some r"
proof (cases m)
  case None
  with assms show ?thesis
    by (simp add: leading_ratio_def nat_GetDegree big_Div_def)
next
  case (Some mv)
  with assms(3) have mv: "mv \<noteq> 0" by simp
  then have "big_ModInverse 0 (last q) mv \<noteq> None"
    by (simp add: big_ModInverse_def big_Mod_def Let_def)
  then obtain r0 where "big_ModInverse 0 (last q) mv = Some r0" by auto
  with Some mv assms(1,2) show ?thesis
    by (simp add: leading_ratio_def nat_GetDegree big_Mod_def)
qed

lemma div_step_total:
  assumes "q \<noteq> []" "m \<noteq> Some 0" "\<not> (m = None \<and> last q = 0)"
    and "length t - length q < length quo"
  shows "div_step q m quo t \<noteq> None"
proof (cases "GetDegree t - GetDegree q < 0 \<or> isZero t")
  case True
  then show ?thesis by (simp add: div_step_def)
next
  case False
  then have le: "length q \<le> length t" and nz: "\<not> isZero t" by (auto simp: GetDegree_def)
  with assms(1) have t: "t \<noteq> []" by auto
  from leading_ratio_total [OF assms(1) t assms(2,3)] obtain r where
    r: "leading_ratio q m t = Some r" by blast
  show ?thesis
  proof (cases "r = 0")
    case True
    with r False assms(1) show ?thesis
      by (simp add: div_step_def Let_def big_Cmp_def)
  next
    case r0: False
    from div_step_Next_intro [OF assms(1) le nz r r0 assms(4)] show ?thesis by auto
  qed
qed

lemma div_loop_total:
  assumes "q \<noteq> []" "m \<noteq> Some 0" "\<not> (m = None \<and> last q = 0)"
    and "length t - length q < length quo"
  shows "div_loop q m quo t \<noteq> None"
  using assms
proof (induction q m quo t rule: div_loop.induct)
  case (1 q m quo t)
  from div_step_total [OF "1.prems"] obtain res where res: "div_step q m quo t = Some res"
    by auto
  show ?case
  proof (cases res)
    case Exit
    with res show ?thesis by (subst div_loop.simps) simp
  next
    case Abort
    with res show ?thesis by (subst div_loop.simps) simp
  next
    case (Next quo1 t1)
    with res have step: "div_step q m quo t = Some (Next quo1 t1)" by simp
    then have "length quo1 = length quo" "length t1 \<le> length t"
      using trim_length(2) by (auto elim!: div_step_Next) fastforce
    with "1.prems"(4) have "length t1 - length q < length quo1" by simp
    from "1.IH" [OF step refl "1.prems"(1-3) this] step show ?thesis
      by (subst div_loop.simps) simp
  qed
qed

lemma div_loop_Finished_nonempty:
  "div_loop q m quo t = Some (Finished quoF tF) \<Longrightarrow> quo \<noteq> [] \<Longrightarrow> t \<noteq> []
   \<Longrightarrow> quoF \<noteq> [] \<and> tF \<noteq> []"
proof (induction q m quo t rule: div_loop.induct)
  case (1 q m quo t)
  from "1.prems"(1) consider
      (exit) "quoF = quo" "tF = t"
    | (nxt) quo1 t1 where "div_step q m quo t = Some (Next quo1 t1)"
        "div_loop q m quo1 t1 = Some (Finished quoF tF)"
    by (subst (asm) div_loop.simps) (auto split: option.splits step_result.splits)
  then show ?case
  proof cases
    case exit
    with "1.prems" show ?thesis by simp
  next
    case nxt
    from nxt(1) have "quo1 \<noteq> []" "t1 \<noteq> []"
      using "1.prems"(2) trim_length(1) by (auto elim!: div_step_Next)
    with "1.IH" [OF nxt(1) refl nxt(2)] show ?thesis by simp
  qed
qed

text \<open>\<open>Div\<close> returns (it terminates and does not panic) for every nonempty dividend, every
  canonical divisor and every modulus but 0.\<close>

lemma Div_returns:
  assumes "p \<noteq> []" and "canonical q" and "m \<noteq> Some 0"
  shows "\<exists>quo rem. Div p q m = Some (quo, rem)"
proof -
  let ?p = "map (reduce m) p" and ?q = "map (reduce m) q"
  let ?quo0 = "replicate (nat (GetDegree ?p - GetDegree ?q + 1)) (0::int)"
  note san = sanitize_Some [OF assms(3)]
  from assms(2) have q: "q \<noteq> []" by (simp add: canonical_def)
  show ?thesis
  proof (cases "GetDegree ?p < GetDegree ?q \<or> isZero ?q")
    case True
    then show ?thesis
      by (simp add: Div_def Div_body_def san NewPolyInts_def trim_def GetDegree_def Clone_nonneg)
  next
    case False
    then have le: "length ?p - length ?q < length ?quo0"
      using q by (auto simp: GetDegree_def)
    have nz: "\<not> (m = None \<and> last ?q = 0)"
    proof
      assume a: "m = None \<and> last ?q = 0"
      then have "?q = q" by (simp add: map_reduce_None)
      with a False assms(2) q show False
        by (cases q rule: rev_cases) (auto simp: canonical_def isZero_iff)
    qed
    from q have "?q \<noteq> []" by simp
    from div_loop_total [OF this assms(3) nz le] obtain res where
      loop: "div_loop ?q m ?quo0 ?p = Some res" by auto
    show ?thesis
    proof (cases res)
      case Aborted
      with loop False show ?thesis
        by (simp add: Div_def Div_body_def san NewPolyInts_def trim_def GetDegree_def Clone_nonneg)
    next
      case (Finished quoF tF)
      from le have "?quo0 \<noteq> []" by auto
      with div_loop_Finished_nonempty [OF loop [unfolded Finished]] assms(1)
      have "quoF \<noteq> []" "tF \<noteq> []" by auto
      then obtain a b where "trim quoF = Some a" "trim tF = Some b"
        by (auto simp: trim_def)
      with loop Finished False show ?thesis
        by (simp add: Div_def Div_body_def san Clone_nonneg)
    qed
  qed
qed

section \<open>The operands in the store\<close>

text \<open>
  A \<open>Poly\<close> is a slice of pointers, and \<open>sanitize\<close> writes through them:
  \<open>(*p)[i].Mod((*p)[i], m)\<close> overwrites the integer that the caller's polynomial points
  to as well. The store maps the address of each \<open>big.Int\<close> to its value; a polynomial
  is the list of the addresses of its coefficients; new integers are allocated from
  \<open>next_free\<close> upwards.
\<close>

type_synonym addr = nat

record store =
  cells :: "addr \<Rightarrow> int"
  next_free :: addr

type_synonym PolyRef = "addr list"

definition read_poly :: "store \<Rightarrow> PolyRef \<Rightarrow> Poly" where
  "read_poly s p = map (cells s) p"

text \<open>The loop of \<open>sanitize\<close>, writing each reduced coefficient back to its address.\<close>

fun mod_cells :: "store \<Rightarrow> PolyRef \<Rightarrow> int \<Rightarrow> store option" where
  "mod_cells s [] m = Some s"
| "mod_cells s (a # as) m =
     do { v \<leftarrow> big_Mod (cells s a) m; mod_cells (s\<lparr>cells := (cells s)(a := v)\<rparr>) as m }"

definition sanitize_store :: "store \<Rightarrow> PolyRef \<Rightarrow> int option \<Rightarrow> store option" where
  "sanitize_store s p m = (case m of None \<Rightarrow> Some s | Some mv \<Rightarrow> mod_cells s p mv)"

text \<open>Allocation of a new polynomial with the coefficients \<open>vs\<close>.\<close>

definition alloc_poly :: "store \<Rightarrow> Poly \<Rightarrow> store \<times> PolyRef" where
  "alloc_poly s vs =
     (let base = next_free s in
      (\<lparr>cells = (\<lambda>a. if base \<le> a \<and> a < base + length vs then vs ! (a - base) else cells s a),
        next_free = base + length vs\<rparr>,
       [base..<base + length vs]))"

text \<open>
  \<open>Mul\<close> and \<open>Div\<close> on the store. After the two calls of \<open>sanitize\<close> the remaining
  statements read the operands and write only to integers they allocate themselves
  (\<open>big.NewInt\<close>, \<open>new(big.Int)\<close>, \<open>Clone\<close>, \<open>Neg\<close>, the result of \<open>Add\<close>), so they
  compute \<open>Mul_body\<close> and \<open>Div_body\<close> of the operands' contents and leave the results
  in new cells.
\<close>

definition Mul_store :: "store \<Rightarrow> PolyRef \<Rightarrow> PolyRef \<Rightarrow> int option \<Rightarrow> (store \<times> PolyRef) option" where
  "Mul_store s p q m =
     do {
       s \<leftarrow> sanitize_store s p m;
       s \<leftarrow> sanitize_store s q m;
       r \<leftarrow> Mul_body (read_poly s p) (read_poly s q) m;
       Some (alloc_poly s r)
     }"

definition Div_store ::
  "store \<Rightarrow> PolyRef \<Rightarrow> PolyRef \<Rightarrow> int option \<Rightarrow> (store \<times> PolyRef \<times> PolyRef) option" where
  "Div_store s p q m =
     do {
       s \<leftarrow> sanitize_store s p m;
       s \<leftarrow> sanitize_store s q m;
       (quo, rem) \<leftarrow> Div_body (read_poly s p) (read_poly s q) m;
       let (s, quo') = alloc_poly s quo;
           (s, rem') = alloc_poly s rem
       in Some (s, quo', rem')
     }"

text \<open>A store with the constant polynomials \<open>P = 7\<close> at address 0 and \<open>Q = 8\<close> at
  address 1.\<close>

definition store0 :: store where
  "store0 = \<lparr>cells = (\<lambda>a. 0)(0 := 7, 1 := 8), next_free = 2\<rparr>"


text \<open>
  Claim C6, at the input where it fails. The claim: no operation but \<open>NegSelf\<close> and
  \<open>trim\<close> changes an input polynomial, also under a modulus. With the modulus 5,
  \<open>P.Mul(Q, m)\<close> and \<open>P.Div(Q, m)\<close> leave \<open>P = 2\<close> and \<open>Q = 3\<close> behind in the caller's
  polynomials, where \<open>P = 7\<close> and \<open>Q = 8\<close> went in.
\<close>

theorem Mul_Div_overwrite_operands:
  "read_poly store0 [0] = [7] \<and> read_poly store0 [1] = [8]
   \<and> map_option (\<lambda>(s, r). (read_poly s [0], read_poly s [1], read_poly s r))
        (Mul_store store0 [0] [1] (Some 5)) = Some ([2], [3], [1])
   \<and> map_option (\<lambda>(s, quo, rem). (read_poly s [0], read_poly s [1], read_poly s quo, read_poly s rem))
        (Div_store store0 [0] [1] (Some 5)) = Some ([2], [3], [4], [0])"
  by code_simp

text \<open>In general the operands hold their coefficients reduced modulo \<open>m\<close> after the
  call; without a modulus (\<open>reduce None\<close> is the identity) they are unchanged.\<close>

lemma mod_cells_cells:
  "mod_cells s p m = Some s' \<Longrightarrow>
   next_free s' = next_free s
   \<and> (\<forall>a. cells s' a = (if a \<in> set p then cells s a mod \<bar>m\<bar> else cells s a))"
proof (induction p arbitrary: s)
  case Nil
  then show ?case by simp
next
  case (Cons b bs)
  then obtain v where v: "big_Mod (cells s b) m = Some v"
    and rest: "mod_cells (s\<lparr>cells := (cells s)(b := v)\<rparr>) bs m = Some s'"
    by (auto split: Option.bind_splits)
  from v have v': "v = cells s b mod \<bar>m\<bar>" by (auto simp: big_Mod_def split: if_splits)
  from Cons.IH [OF rest] show ?case by (auto simp: v')
qed

lemma sanitize_store_cells:
  assumes "sanitize_store s p m = Some s'"
  shows "next_free s' = next_free s"
    and "cells s' a = (if a \<in> set p then reduce m (cells s a) else cells s a)"
  using assms mod_cells_cells [of s p _ s']
  by (auto simp: sanitize_store_def reduce_def split: option.splits)

lemma alloc_poly_old:
  "a < next_free s \<Longrightarrow> cells (fst (alloc_poly s vs)) a = cells s a"
  by (simp add: alloc_poly_def Let_def)

text \<open>What \<open>Mul\<close> leaves in its operands: their coefficients reduced modulo \<open>m\<close>.\<close>

lemma Mul_store_operands:
  assumes "Mul_store s p q m = Some (s', r)" and "\<forall>a \<in> set p \<union> set q. a < next_free s"
  shows "read_poly s' p = map (reduce m) (read_poly s p)"
    and "read_poly s' q = map (reduce m) (read_poly s q)"
proof -
  from assms(1) obtain s1 s2 v where s1: "sanitize_store s p m = Some s1"
    and s2: "sanitize_store s1 q m = Some s2" and s': "s' = fst (alloc_poly s2 v)"
    by (auto simp: Mul_store_def split: Option.bind_splits) (metis fst_conv)
  have nf: "next_free s2 = next_free s"
    using sanitize_store_cells(1) [OF s1] sanitize_store_cells(1) [OF s2] by simp
  have c: "cells s' a = (if a \<in> set p \<union> set q then reduce m (cells s a) else cells s a)"
    if "a < next_free s" for a
    using that nf sanitize_store_cells(2) [OF s1, of a] sanitize_store_cells(2) [OF s2, of a]
    by (auto simp: s' alloc_poly_old)
  from assms(2) c show "read_poly s' p = map (reduce m) (read_poly s p)"
    and "read_poly s' q = map (reduce m) (read_poly s q)"
    by (auto simp: read_poly_def)
qed

end
